theory Spec2Isabelle
  imports Complex_Main
begin

section \<open>Errors and basic Python operations\<close>

text \<open>
  The program is \<^verbatim>\<open>seq2seq/shi_generator.py\<close>: the training loop \<^verbatim>\<open>train()\<close> and the
  interactive loop \<^verbatim>\<open>decode()\<close> of a bucketed sequence-to-sequence generator.
  Python exceptions are values of \<open>py_error\<close>; a computation that can raise returns
  \<open>py_error + 'a\<close> with \<open>Inl\<close> for the exception. Token ids are Python integers.
\<close>

datatype py_error =
    ValueError
  | ZeroDivisionError
  | OverflowError
  | AttributeError
  | IndexError
  | LookupError
  | TypeError

text \<open>\<^verbatim>\<open>min(xs)\<close> and \<^verbatim>\<open>max(xs)\<close> on a Python list: \<^verbatim>\<open>ValueError\<close> on the empty list.\<close>

definition py_min :: "'a::linorder list \<Rightarrow> py_error + 'a" where
  "py_min xs = (case xs of [] \<Rightarrow> Inl ValueError | y # ys \<Rightarrow> Inr (fold min ys y))"

definition py_max :: "'a::linorder list \<Rightarrow> py_error + 'a" where
  "py_max xs = (case xs of [] \<Rightarrow> Inl ValueError | y # ys \<Rightarrow> Inr (fold max ys y))"

text \<open>\<^verbatim>\<open>xs.index(x)\<close> on a Python list: the first position of \<open>x\<close>, \<^verbatim>\<open>ValueError\<close> when absent.\<close>

fun list_index :: "'a list \<Rightarrow> 'a \<Rightarrow> py_error + nat" where
  "list_index [] x = Inl ValueError"
| "list_index (y # ys) x =
     (if y = x then Inr 0
      else (case list_index ys x of Inl e \<Rightarrow> Inl e | Inr n \<Rightarrow> Inr (Suc n)))"

text \<open>\<^verbatim>\<open>xs[-3:]\<close>: the last three elements, or the whole list when it is shorter.\<close>

definition last3 :: "'a list \<Rightarrow> 'a list" where
  "last3 xs = drop (length xs - 3) xs"

section \<open>Floating-point arithmetic\<close>

text \<open>
  A Python float is an IEEE double, represented here by the real number it denotes.
  Conversion from an integer, division and addition return the double nearest to the
  exact result, ties going to the even significand: \<open>round_double x\<close> rounds \<open>x\<close>
  to a multiple of \<open>2 ^ ulp_exponent x\<close>, the spacing of the doubles around \<open>x\<close> (53
  significant bits, spacing \<open>2 ^ - 1074\<close> in the subnormal range). Comparisons are
  exact. Results beyond the largest double (infinities) and NaN are not represented, and
  \<^verbatim>\<open>math.exp\<close> is the exact exponential.
\<close>

definition round_half_even :: "real \<Rightarrow> int" where
  "round_half_even y =
     (if y - of_int \<lfloor>y\<rfloor> < 1 / 2 then \<lfloor>y\<rfloor>
      else if y - of_int \<lfloor>y\<rfloor> > 1 / 2 then \<lfloor>y\<rfloor> + 1
      else if even \<lfloor>y\<rfloor> then \<lfloor>y\<rfloor> else \<lfloor>y\<rfloor> + 1)"

definition ulp_exponent :: "real \<Rightarrow> int" where
  "ulp_exponent x = max (\<lfloor>log 2 \<bar>x\<bar>\<rfloor> - 52) (- 1074)"

definition round_double :: "real \<Rightarrow> real" where
  "round_double x =
     (if x = 0 then 0
      else of_int (round_half_even (x / 2 powi ulp_exponent x)) * 2 powi ulp_exponent x)"

text \<open>
  \<^verbatim>\<open>float(n)\<close> (also the conversion of an integer operand of \<^verbatim>\<open>/\<close>), \<^verbatim>\<open>a / b\<close> with a
  non-zero divisor, and \<^verbatim>\<open>a + b\<close>.
\<close>

definition py_float :: "int \<Rightarrow> real" where
  "py_float n = round_double (of_int n)"

definition float_div :: "real \<Rightarrow> real \<Rightarrow> real" where
  "float_div a b = round_double (a / b)"

definition float_add :: "real \<Rightarrow> real \<Rightarrow> real" where
  "float_add a b = round_double (a + b)"

section \<open>Bucket configuration\<close>

text \<open>\<^verbatim>\<open>_buckets = [(5, 6), (6, 7), (8, 9), (15, 16)]\<close> (line 88).\<close>

definition buckets :: "(nat \<times> nat) list" where
  "buckets = [(5, 6), (6, 7), (8, 9), (15, 16)]"

section \<open>Decode-mode bucket selection\<close>

text \<open>
  Lines 243-249 of \<^verbatim>\<open>decode\<close>:
  \<^verbatim>\<open>
  bucket_id = len(_buckets) - 1
  for i, bucket in enumerate(_buckets):
      if bucket[0] >= len(token_ids):
          bucket_id = i
          break
  else:
      logging.warning("Sentence truncated: %s", sentence)
  \<close>
  \<open>decode_bucket_loop\<close> is the \<^verbatim>\<open>for\<close> loop from position \<open>i\<close> on: \<open>Some i\<close> when it
  leaves through \<^verbatim>\<open>break\<close>, \<open>None\<close> when it runs into the \<^verbatim>\<open>else\<close> branch.
  \<open>decode_bucket\<close> returns the bucket id and whether the warning was logged.
\<close>

fun decode_bucket_loop :: "nat \<Rightarrow> (nat \<times> nat) list \<Rightarrow> nat \<Rightarrow> nat option" where
  "decode_bucket_loop i [] L = None"
| "decode_bucket_loop i (bucket # rest) L =
     (if fst bucket \<ge> L then Some i else decode_bucket_loop (Suc i) rest L)"

definition decode_bucket :: "(nat \<times> nat) list \<Rightarrow> nat \<Rightarrow> int \<times> bool" where
  "decode_bucket bs L =
     (case decode_bucket_loop 0 bs L of
        Some i \<Rightarrow> (int i, False)
      | None \<Rightarrow> (int (length bs) - 1, True))"

section \<open>Training-mode bucket selection\<close>

text \<open>
  Lines 132-139 of \<^verbatim>\<open>train\<close>:
  \<^verbatim>\<open>
  train_bucket_sizes = [len(train_set[b]) for b in xrange(len(_buckets))]
  train_total_size = float(sum(train_bucket_sizes))
  train_buckets_scale = [sum(train_bucket_sizes[:i + 1]) / train_total_size
                         for i in xrange(len(train_bucket_sizes))]
  \<close>
  The total is converted to a float, and each integer prefix sum is converted by the
  division, whose quotient is rounded. Dividing by the float \<open>0.0\<close> raises
  \<^verbatim>\<open>ZeroDivisionError\<close>; with no bucket at all the comprehension divides nothing and the
  result is the empty list.
\<close>

definition train_bucket_sizes :: "(nat \<Rightarrow> 'ex list) \<Rightarrow> nat list" where
  "train_bucket_sizes train_set = map (\<lambda>b. length (train_set b)) [0..<length buckets]"

definition train_buckets_scale :: "nat list \<Rightarrow> py_error + real list" where
  "train_buckets_scale sizes =
     (let train_total_size = py_float (int (sum_list sizes)) in
      if sizes \<noteq> [] \<and> train_total_size = 0 then Inl ZeroDivisionError
      else Inr (map (\<lambda>i. float_div (py_float (int (sum_list (take (i + 1) sizes))))
                                   train_total_size)
                  [0..<length sizes]))"

text \<open>
  Lines 150-152, given the draw \<open>random_number_01\<close> of \<^verbatim>\<open>np.random.random_sample()\<close>:
  \<^verbatim>\<open>
  bucket_id = min([i for i in xrange(len(train_buckets_scale))
                   if train_buckets_scale[i] > random_number_01])
  \<close>
\<close>

definition select_bucket :: "real list \<Rightarrow> real \<Rightarrow> py_error + nat" where
  "select_bucket scale random_number_01 =
     py_min (filter (\<lambda>i. scale ! i > random_number_01) [0..<length scale])"

section \<open>Perplexity\<close>

text \<open>
  \<^verbatim>\<open>math.exp(x)\<close> raises \<^verbatim>\<open>OverflowError\<close> when the result is beyond the largest
  finite double \<open>DBL_MAX\<close>. A printed float is a finite number or \<^verbatim>\<open>float("inf")\<close>.
\<close>

datatype pyfloat = Finite real | PosInf

definition DBL_MAX :: real where
  "DBL_MAX = (2 - 1 / 2 ^ 52) * 2 ^ 1023"

definition math_exp :: "real \<Rightarrow> py_error + real" where
  "math_exp x = (if exp x > DBL_MAX then Inl OverflowError else Inr (exp x))"

text \<open>
  Line 167 and lines 188-189, the same expression on \<open>loss\<close> and on \<open>eval_loss\<close>:
  \<^verbatim>\<open>perplexity = math.exp(float(loss)) if loss < 300 else float("inf")\<close>
\<close>

definition perplexity :: "real \<Rightarrow> py_error + pyfloat" where
  "perplexity loss =
     (if loss < 300
      then (case math_exp loss of Inl e \<Rightarrow> Inl e | Inr p \<Rightarrow> Inr (Finite p))
      else Inr PosInf)"

section \<open>Effects of the loops\<close>

text \<open>
  Calls into the model, the session and the output streams are recorded as events, in
  the order the program performs them. An \<open>outcome\<close> is the events a piece of code
  performed and the exception that ended it, if any.
\<close>

datatype event =
    GetBatch int                      \<comment> \<open>\<^verbatim>\<open>model.get_batch(train_set, bucket_id)\<close>\<close>
  | GetDevBatch int                   \<comment> \<open>\<^verbatim>\<open>model.get_dev_batch(..., bucket_id)\<close>\<close>
  | ModelStep int bool                \<comment> \<open>\<^verbatim>\<open>model.step(sess, ..., bucket_id, forward_only)\<close>\<close>
  | LearningRateDecayOp               \<comment> \<open>\<^verbatim>\<open>sess.run(model.learning_rate_decay_op)\<close>\<close>
  | SaverSave                         \<comment> \<open>\<^verbatim>\<open>model.saver.save(sess, checkpoint_path, ...)\<close>\<close>
  | PrintGlobalStep real pyfloat      \<comment> \<open>step-time and perplexity of the statistics line\<close>
  | PrintEmptyBucket int              \<comment> \<open>\<^verbatim>\<open>"  eval: empty bucket %d"\<close>\<close>
  | PrintEvalPerplexity int pyfloat   \<comment> \<open>\<^verbatim>\<open>"  eval: bucket %d perplexity %.2f"\<close>\<close>
  | PrintHeader                       \<comment> \<open>\<^verbatim>\<open>"Original / generated / target text: "\<close>\<close>
  | PrintText string                  \<comment> \<open>\<^verbatim>\<open>print(" ".join(...))\<close>\<close>
  | StdoutFlush
  | LoggingWarning                    \<comment> \<open>\<^verbatim>\<open>logging.warning("Sentence truncated: %s", sentence)\<close>\<close>

type_synonym outcome = "event list \<times> py_error option"

definition done_events :: "event list \<Rightarrow> outcome" where
  "done_events es = (es, None)"

definition raise_error :: "py_error \<Rightarrow> outcome" where
  "raise_error e = ([], Some e)"

definition then_do :: "outcome \<Rightarrow> outcome \<Rightarrow> outcome" where
  "then_do a b = (case snd a of None \<Rightarrow> (fst a @ fst b, snd b) | Some e \<Rightarrow> a)"

section \<open>Token sequences, end-of-sequence truncation and printing\<close>

text \<open>
  A token sequence is a Python list or a one-dimensional numpy array. Both support
  \<^verbatim>\<open>x in seq\<close>, slicing and iteration; only the list has the method \<^verbatim>\<open>index\<close>, on an
  array \<^verbatim>\<open>seq.index\<close> raises \<^verbatim>\<open>AttributeError\<close>.
\<close>

datatype pyseq = PyList "int list" | NdArray "int list"

fun items :: "pyseq \<Rightarrow> int list" where
  "items (PyList xs) = xs"
| "items (NdArray xs) = xs"

fun seq_index :: "pyseq \<Rightarrow> int \<Rightarrow> py_error + nat" where
  "seq_index (PyList xs) x = list_index xs x"
| "seq_index (NdArray xs) x = Inl AttributeError"

fun seq_prefix :: "nat \<Rightarrow> pyseq \<Rightarrow> pyseq" where
  "seq_prefix n (PyList xs) = PyList (take n xs)"
| "seq_prefix n (NdArray xs) = NdArray (take n xs)"

text \<open>
  The truncation statement, the same at lines 204-205, 211-212, 217-218 and 263-264:
  \<^verbatim>\<open>
  if data_utils.EOS_ID in text:
      text = text[:text.index(data_utils.EOS_ID)]
  \<close>
  \<^verbatim>\<open>data_utils.EOS_ID\<close> is a constant of a module outside the sources: a parameter.
\<close>

definition cut_at_eos :: "int \<Rightarrow> pyseq \<Rightarrow> py_error + pyseq" where
  "cut_at_eos EOS_ID text =
     (if EOS_ID \<in> set (items text)
      then (case seq_index text EOS_ID of
              Inl e \<Rightarrow> Inl e
            | Inr n \<Rightarrow> Inr (seq_prefix n text))
      else Inr text)"

text \<open>
  \<^verbatim>\<open>print(" ".join([tf.compat.as_str(i2w[output]) for output in text]))\<close>: the
  vocabulary \<open>i2w\<close> is loaded by a module outside the sources and is a parameter; a
  token it does not hold raises \<^verbatim>\<open>LookupError\<close> before anything is printed.
\<close>

fun join_space :: "string list \<Rightarrow> string" where
  "join_space [] = []"
| "join_space [w] = w"
| "join_space (w # v # ws) = w @ '' '' @ join_space (v # ws)"

definition print_text :: "(int \<rightharpoonup> string) \<Rightarrow> pyseq \<Rightarrow> outcome" where
  "print_text i2w text =
     (case those (map i2w (items text)) of
        None \<Rightarrow> raise_error LookupError
      | Some ws \<Rightarrow> done_events [PrintText (join_space ws)])"

section \<open>Greedy decoding\<close>

text \<open>
  \<^verbatim>\<open>np.argmax\<close> of a vector: the first position of its maximum, \<^verbatim>\<open>ValueError\<close> for the
  empty vector. \<open>argmax_from b v i ys\<close> scans \<open>ys\<close>, whose first element has position
  \<open>i\<close>, with the best position \<open>b\<close> and its value \<open>v\<close> so far.
\<close>

fun argmax_from :: "nat \<Rightarrow> real \<Rightarrow> nat \<Rightarrow> real list \<Rightarrow> nat" where
  "argmax_from b v i [] = b"
| "argmax_from b v i (y # ys) =
     (if y > v then argmax_from i y (Suc i) ys else argmax_from b v (Suc i) ys)"

definition np_argmax :: "real list \<Rightarrow> py_error + nat" where
  "np_argmax xs = (case xs of [] \<Rightarrow> Inl ValueError | x # rest \<Rightarrow> Inr (argmax_from 0 x 1 rest))"

text \<open>Evaluating a list comprehension whose elements can raise: the first exception wins.\<close>

fun collect :: "(py_error + 'a) list \<Rightarrow> py_error + 'a list" where
  "collect [] = Inr []"
| "collect (r # rs) =
     (case r of
        Inl e \<Rightarrow> Inl e
      | Inr x \<Rightarrow> (case collect rs of Inl e \<Rightarrow> Inl e | Inr xs \<Rightarrow> Inr (x # xs)))"

text \<open>
  Line 260 of \<^verbatim>\<open>decode\<close>, where each \<open>logit\<close> is a batch of rows of vocabulary scores:
  \<^verbatim>\<open>outputs = [int(np.argmax(logit, axis=1)) for logit in output_logits]\<close>
  \<^verbatim>\<open>int\<close> of an array converts only an array of one element (the batch size of
  \<^verbatim>\<open>decode\<close> is 1) and raises \<^verbatim>\<open>TypeError\<close> otherwise.
\<close>

definition int_argmax :: "real list list \<Rightarrow> py_error + int" where
  "int_argmax logit =
     (case collect (map np_argmax logit) of
        Inl e \<Rightarrow> Inl e
      | Inr [k] \<Rightarrow> Inr (int k)
      | Inr _ \<Rightarrow> Inl TypeError)"

definition decode_outputs :: "real list list list \<Rightarrow> py_error + int list" where
  "decode_outputs output_logits = collect (map int_argmax output_logits)"

text \<open>
  Line 194 of \<^verbatim>\<open>train\<close>, on the list of per-timestep score matrices (batch rows of
  vocabulary scores, every timestep of the same batch size):
  \<^verbatim>\<open>outputs = np.argmax(output_logits, axis=2).transpose()\<close>
  The rows of the result are numpy arrays.
\<close>

definition eval_outputs :: "real list list list \<Rightarrow> py_error + int list list" where
  "eval_outputs output_logits =
     (case collect (map (\<lambda>step. collect (map np_argmax step)) output_logits) of
        Inl e \<Rightarrow> Inl e
      | Inr m \<Rightarrow> Inr (map (map int) (transpose m)))"

text \<open>Indexing a list or an array by a non-negative position.\<close>

definition py_nth :: "'a list \<Rightarrow> nat \<Rightarrow> py_error + 'a" where
  "py_nth xs i = (if i < length xs then Inr (xs ! i) else Inl IndexError)"

section \<open>Evaluation Reporter\<close>

text \<open>
  What the environment answers during one iteration of the training loop: the random
  draw, the duration and loss of the training step and, per bucket, what
  \<^verbatim>\<open>model.get_dev_batch\<close> and the forward-only \<^verbatim>\<open>model.step\<close> return; \<open>randint env b i\<close>
  is the draw of \<^verbatim>\<open>randint(0, FLAGS.batch_size-1)\<close> in round \<open>i\<close> of bucket \<open>b\<close>.
  \<open>source\<close> and \<open>target\<close> are the examples' own token lists (Python lists).
\<close>

record dev_result =
  eval_loss :: real
  output_logits :: "real list list list"
  source :: "int list list"
  target :: "int list list"

record step_env =
  random_number_01 :: real
  elapsed :: real
  step_loss :: real
  dev :: "nat \<Rightarrow> dev_result"
  randint :: "nat \<Rightarrow> nat \<Rightarrow> nat"

record config =
  FLAGS_steps_per_checkpoint :: int
  cfg_EOS_ID :: int
  cfg_i2w :: "int \<rightharpoonup> string"
  cfg_dev_set :: "nat \<Rightarrow> (int list \<times> int list) list"

definition show_example_num :: nat where
  "show_example_num = 5"

text \<open>
  Lines 198-220, one round of the loop over the examples to show. \<open>ori_text\<close> and
  \<open>target_text\<close> are lists, \<open>out_text\<close> is a row of the array \<open>outputs\<close>.
\<close>

definition show_example ::
  "int \<Rightarrow> (int \<rightharpoonup> string) \<Rightarrow> int list list \<Rightarrow> int list list \<Rightarrow> int list list \<Rightarrow> nat \<Rightarrow> outcome" where
  "show_example EOS_ID i2w src tgt outputs index_to_show =
     (case py_nth src index_to_show of Inl e \<Rightarrow> raise_error e | Inr ori \<Rightarrow>
      case py_nth tgt index_to_show of Inl e \<Rightarrow> raise_error e | Inr tg \<Rightarrow>
      case py_nth outputs index_to_show of Inl e \<Rightarrow> raise_error e | Inr out \<Rightarrow>
      case cut_at_eos EOS_ID (PyList ori) of Inl e \<Rightarrow> raise_error e | Inr ori_text \<Rightarrow>
        then_do (done_events [PrintHeader])
       (then_do (print_text i2w ori_text)
       (case cut_at_eos EOS_ID (NdArray out) of Inl e \<Rightarrow> raise_error e | Inr out_text \<Rightarrow>
          then_do (print_text i2w out_text)
         (case cut_at_eos EOS_ID (PyList tg) of Inl e \<Rightarrow> raise_error e | Inr target_text \<Rightarrow>
            print_text i2w target_text))))"

fun show_examples ::
  "int \<Rightarrow> (int \<rightharpoonup> string) \<Rightarrow> int list list \<Rightarrow> int list list \<Rightarrow> int list list \<Rightarrow> nat list \<Rightarrow> outcome" where
  "show_examples EOS_ID i2w src tgt outputs [] = done_events []"
| "show_examples EOS_ID i2w src tgt outputs (index_to_show # rest) =
     then_do (show_example EOS_ID i2w src tgt outputs index_to_show)
             (show_examples EOS_ID i2w src tgt outputs rest)"

text \<open>Lines 181-220, the body of the loop over the buckets, and lines 180-222.\<close>

definition eval_bucket :: "config \<Rightarrow> step_env \<Rightarrow> nat \<Rightarrow> outcome" where
  "eval_bucket cfg env bucket_id =
     (if length (cfg_dev_set cfg bucket_id) = 0
      then done_events [PrintEmptyBucket (int bucket_id)]
      else
        then_do (done_events [GetDevBatch (int bucket_id), ModelStep (int bucket_id) True])
       (case perplexity (eval_loss (dev env bucket_id)) of
          Inl e \<Rightarrow> raise_error e
        | Inr eval_ppx \<Rightarrow>
            then_do (done_events [PrintEvalPerplexity (int bucket_id) eval_ppx])
           (case eval_outputs (output_logits (dev env bucket_id)) of
              Inl e \<Rightarrow> raise_error e
            | Inr outputs \<Rightarrow>
                show_examples (cfg_EOS_ID cfg) (cfg_i2w cfg)
                  (source (dev env bucket_id)) (target (dev env bucket_id)) outputs
                  (map (randint env bucket_id) [0..<show_example_num]))))"

fun eval_loop :: "config \<Rightarrow> step_env \<Rightarrow> nat list \<Rightarrow> outcome" where
  "eval_loop cfg env [] = done_events []"
| "eval_loop cfg env (bucket_id # rest) =
     then_do (eval_bucket cfg env bucket_id) (eval_loop cfg env rest)"

definition run_evals :: "config \<Rightarrow> step_env \<Rightarrow> outcome" where
  "run_evals cfg env =
     then_do (eval_loop cfg env [0..<length buckets]) (done_events [StdoutFlush])"

section \<open>Training Loop\<close>

text \<open>
  The variables of the loop (line 142-144) and the events performed so far. One
  iteration either completes or ends in an exception; the state it reached is kept.
\<close>

record train_state =
  step_time :: real
  loss :: real
  current_step :: int
  previous_losses :: "real list"
  trace :: "event list"

definition emit :: "event list \<Rightarrow> train_state \<Rightarrow> train_state" where
  "emit es s = s\<lparr>trace := trace s @ es\<rparr>"

text \<open>
  Line 172: \<^verbatim>\<open>len(previous_losses) > 2 and loss > max(previous_losses[-3:])\<close>; the
  right operand is evaluated only when the left one holds.
\<close>

definition no_improvement :: "real list \<Rightarrow> real \<Rightarrow> py_error + bool" where
  "no_improvement previous l =
     (if length previous > 2
      then (case py_max (last3 previous) of Inl e \<Rightarrow> Inl e | Inr m \<Rightarrow> Inr (l > m))
      else Inr False)"

text \<open>Lines 166-222, the checkpoint event.\<close>

definition checkpoint :: "config \<Rightarrow> step_env \<Rightarrow> train_state \<Rightarrow> train_state \<times> py_error option" where
  "checkpoint cfg env s =
     (case perplexity (loss s) of
        Inl e \<Rightarrow> (s, Some e)
      | Inr ppx \<Rightarrow>
          let s1 = emit [PrintGlobalStep (step_time s) ppx] s in
          (case no_improvement (previous_losses s1) (loss s1) of
             Inl e \<Rightarrow> (s1, Some e)
           | Inr decay \<Rightarrow>
               let s2 = (if decay then emit [LearningRateDecayOp] s1 else s1);
                   s3 = s2\<lparr>previous_losses := previous_losses s2 @ [loss s2]\<rparr>;
                   s4 = emit [SaverSave] s3;
                   s5 = s4\<lparr>step_time := 0, loss := 0\<rparr>;
                   evals = run_evals cfg env
               in (emit (fst evals) s5, snd evals)))"

text \<open>
  Lines 150-222, one iteration of \<^verbatim>\<open>while True\<close>. The duration \<open>elapsed env\<close> (the
  difference of the two clock readings) and the loss \<open>step_loss env\<close> of the step are
  doubles; lines 160-161 divide each by the interval and add it to its accumulator.
\<close>

definition train_iteration ::
  "config \<Rightarrow> real list \<Rightarrow> step_env \<Rightarrow> train_state \<Rightarrow> train_state \<times> py_error option" where
  "train_iteration cfg scale env s =
     (case select_bucket scale (random_number_01 env) of
        Inl e \<Rightarrow> (s, Some e)
      | Inr bucket_id \<Rightarrow>
          let s1 = emit [GetBatch (int bucket_id), ModelStep (int bucket_id) False] s in
          if FLAGS_steps_per_checkpoint cfg = 0 then (s1, Some ZeroDivisionError)
          else
            let s2 = s1\<lparr>step_time := float_add (step_time s1)
                          (float_div (elapsed env) (py_float (FLAGS_steps_per_checkpoint cfg))),
                        loss := float_add (loss s1)
                          (float_div (step_loss env) (py_float (FLAGS_steps_per_checkpoint cfg))),
                        current_step := current_step s1 + 1\<rparr>
            in if current_step s2 mod FLAGS_steps_per_checkpoint cfg = 0
               then checkpoint cfg env s2
               else (s2, None))"

text \<open>
  The loop never ends by itself: \<open>train_loop\<close> runs it for as many iterations as the
  environment has answers, and stops at the first exception.
\<close>

fun train_loop ::
  "config \<Rightarrow> real list \<Rightarrow> step_env list \<Rightarrow> train_state \<Rightarrow> train_state \<times> py_error option" where
  "train_loop cfg scale [] s = (s, None)"
| "train_loop cfg scale (env # envs) s =
     (case train_iteration cfg scale env s of
        (s', None) \<Rightarrow> train_loop cfg scale envs s'
      | (s', Some e) \<Rightarrow> (s', Some e))"

text \<open>
  What the statement \<^verbatim>\<open>acc += value / FLAGS.steps_per_checkpoint\<close>, run once per value
  from an accumulator \<open>acc\<close>, leaves in it.
\<close>

definition accumulate :: "int \<Rightarrow> real \<Rightarrow> real list \<Rightarrow> real" where
  "accumulate n acc vs = foldl (\<lambda>a v. float_add a (float_div v (py_float n))) acc vs"

definition initial_state :: train_state where
  "initial_state = \<lparr>step_time = 0, loss = 0, current_step = 0, previous_losses = [], trace = []\<rparr>"

definition train ::
  "config \<Rightarrow> (nat \<Rightarrow> (int list \<times> int list) list) \<Rightarrow> step_env list \<Rightarrow> train_state \<times> py_error option" where
  "train cfg train_set envs =
     (case train_buckets_scale (train_bucket_sizes train_set) of
        Inl e \<Rightarrow> (initial_state, Some e)
      | Inr scale \<Rightarrow> train_loop cfg scale envs initial_state)"

section \<open>Decode Loop\<close>

text \<open>
  Lines 241-266, the body of the loop of \<^verbatim>\<open>decode\<close> for one input line, given its
  token ids (the result of \<^verbatim>\<open>shi_util.sentence_to_int_list\<close>) and the logits the model
  answers. The prompt \<^verbatim>\<open>"> "\<close> written around it is not recorded.
\<close>

definition decode_sentence ::
  "int \<Rightarrow> (int \<rightharpoonup> string) \<Rightarrow> int list \<Rightarrow> real list list list \<Rightarrow> outcome" where
  "decode_sentence EOS_ID i2w token_ids logits =
     (case decode_bucket buckets (length token_ids) of
        (bucket_id, warned) \<Rightarrow>
          then_do (done_events ((if warned then [LoggingWarning] else [])
                                 @ [GetDevBatch bucket_id, ModelStep bucket_id True]))
         (case decode_outputs logits of
            Inl e \<Rightarrow> raise_error e
          | Inr outputs \<Rightarrow>
              (case cut_at_eos EOS_ID (PyList outputs) of
                 Inl e \<Rightarrow> raise_error e
               | Inr outputs' \<Rightarrow> print_text i2w outputs')))"

section \<open>Batch Sampler\<close>

text \<open>
  Modelled from the spec: the Batch Sampler (\<^verbatim>\<open>get_batch\<close> and \<^verbatim>\<open>get_dev_batch\<close> of the
  module \<^verbatim>\<open>seq2seq_model\<close>, which is not among the sources). The decoder row of an
  example whose target is within the output capacity is the target with the GO id in
  front and PAD behind, up to the output capacity plus one extra slot: for capacity 3
  and target \<open>[3, 4]\<close> it is \<open>[GO, 3, 4, PAD]\<close>.
\<close>

definition decoder_row :: "int \<Rightarrow> int \<Rightarrow> nat \<Rightarrow> int list \<Rightarrow> int list" where
  "decoder_row GO_ID PAD_ID capacity tgt =
     GO_ID # tgt @ replicate (capacity - length tgt) PAD_ID"

text \<open>
  Modelled from the spec: the weight row of the Batch Sampler (\<^verbatim>\<open>get_batch\<close> of
  \<^verbatim>\<open>seq2seq_model\<close>, not among the sources). It has one weight per position of the
  output capacity: 1 where the position holds a token of the target, 0 where it holds
  padding, and 0 at the last position whatever it holds; for capacity 3 and target
  \<open>[3, 4]\<close> it is \<open>[1, 1, 0]\<close>.
\<close>

definition weight_row :: "nat \<Rightarrow> int list \<Rightarrow> real list" where
  "weight_row capacity tgt =
     map (\<lambda>j. if j < length tgt \<and> j \<noteq> capacity - 1 then 1 else 0) [0..<capacity]"

section \<open>Example data\<close>

text \<open>
  A small configuration and environment on which the definitions are evaluated: a
  vocabulary of six tokens whose end-of-sequence id is 2, a checkpoint every two steps,
  and a held-out set whose only non-empty bucket is bucket 1. The model's answer
  \<open>quiet_logits\<close> decodes to the tokens 4, 5 (no end-of-sequence marker);
  \<open>eos_logits\<close> decodes to 5, 2, 4 (the marker in the middle).
\<close>

definition example_i2w :: "int \<rightharpoonup> string" where
  "example_i2w =
     map_of [(0, ''_PAD''), (1, ''_GO''), (2, ''_EOS''), (3, ''_UNK''), (4, ''a''), (5, ''b'')]"

definition example_config :: config where
  "example_config =
     \<lparr>FLAGS_steps_per_checkpoint = 2, cfg_EOS_ID = 2, cfg_i2w = example_i2w,
      cfg_dev_set = (\<lambda>b. if b = 1 then [([4, 2], [5, 2])] else [])\<rparr>"

definition quiet_logits :: "real list list list" where
  "quiet_logits = [[[0, 0, 0, 0, 1, 0]], [[0, 0, 0, 0, 0, 1]]]"

definition eos_logits :: "real list list list" where
  "eos_logits = [[[0, 0, 0, 0, 0, 1]], [[0, 0, 1, 0, 0, 0]], [[0, 0, 0, 0, 1, 0]]]"

definition example_env :: "real list list list \<Rightarrow> real \<Rightarrow> step_env" where
  "example_env logits l =
     \<lparr>random_number_01 = 1 / 2, elapsed = 4, step_loss = l,
      dev = (\<lambda>b. \<lparr>eval_loss = 0, output_logits = logits,
                    source = [[4, 2]], target = [[5, 2]]\<rparr>),
      randint = (\<lambda>b i. 0)\<rparr>"

definition example_state :: "real list \<Rightarrow> real \<Rightarrow> train_state" where
  "example_state previous l =
     \<lparr>step_time = 1, loss = l, current_step = 2, previous_losses = previous, trace = []\<rparr>"

text \<open>
  Five step losses whose mean is exactly 1, for a checkpoint every five steps.
\<close>

definition drift_config :: config where
  "drift_config = example_config\<lparr>FLAGS_steps_per_checkpoint := 5\<rparr>"

definition drift_losses :: "real list" where
  "drift_losses = [0, 1 / 8, 13 / 8, 11 / 4, 1 / 2]"

definition drift_envs :: "step_env list" where
  "drift_envs = map (example_env quiet_logits) drift_losses"

section \<open>Decode-mode bucket selection: proofs\<close>

lemma decode_bucket_loop_None:
  "decode_bucket_loop i bs L = None \<longleftrightarrow> (\<forall>b \<in> set bs. fst b < L)"
  by (induction bs arbitrary: i) auto

lemma decode_bucket_loop_Some:
  "decode_bucket_loop i bs L = Some j \<Longrightarrow>
     i \<le> j \<and> j - i < length bs \<and> L \<le> fst (bs ! (j - i)) \<and> (\<forall>k < j - i. fst (bs ! k) < L)"
proof (induction bs arbitrary: i)
  case Nil
  then show ?case by simp
next
  case (Cons b bs)
  show ?case
  proof (cases "L \<le> fst b")
    case True
    with Cons.prems show ?thesis by simp
  next
    case False
    with Cons.prems have rec: "decode_bucket_loop (Suc i) bs L = Some j" by simp
    from Cons.IH [OF rec] have ih: "Suc i \<le> j" "j - Suc i < length bs"
      "L \<le> fst (bs ! (j - Suc i))" "\<forall>k < j - Suc i. fst (bs ! k) < L" by simp_all
    from ih(1) have eq: "j - i = Suc (j - Suc i)" by simp
    have "\<forall>k < j - i. fst ((b # bs) ! k) < L"
    proof (intro allI impI)
      fix k assume "k < j - i"
      then show "fst ((b # bs) ! k) < L"
        using False ih(4) eq by (cases k) auto
    qed
    with ih eq show ?thesis by simp
  qed
qed

text \<open>
  C3. For every input length \<open>L\<close> and bucket list, the decode-mode selector returns the
  first bucket (in list order, which is ascending capacity) whose input capacity is at
  least \<open>L\<close>, without a warning; when no bucket fits it returns the last index and logs
  the truncation warning, and it never fails. For a list sorted by input capacity the
  chosen capacity is the least one that fits. With the configured buckets, \<open>L = 8\<close>
  gives index 2 and \<open>L = 20\<close> gives index 3 with the warning.
\<close>

theorem decode_bucket_first_fit:
  "((\<exists>b \<in> set bs. L \<le> fst b) \<longrightarrow>
      (\<exists>i < length bs. decode_bucket bs L = (int i, False) \<and> L \<le> fst (bs ! i)
         \<and> (\<forall>k < i. fst (bs ! k) < L)
         \<and> (sorted (map fst bs) \<longrightarrow> (\<forall>b \<in> set bs. L \<le> fst b \<longrightarrow> fst (bs ! i) \<le> fst b))))
   \<and> ((\<forall>b \<in> set bs. fst b < L) \<longrightarrow> decode_bucket bs L = (int (length bs) - 1, True))
   \<and> decode_bucket buckets 8 = (2, False)
   \<and> decode_bucket buckets 20 = (3, True)"
proof (intro conjI impI)
  assume fit: "\<exists>b \<in> set bs. L \<le> fst b"
  then have "decode_bucket_loop 0 bs L \<noteq> None"
    by (auto simp: decode_bucket_loop_None not_less)
  then obtain i where i: "decode_bucket_loop 0 bs L = Some i" by auto
  from decode_bucket_loop_Some [OF i]
  have p: "i < length bs" "L \<le> fst (bs ! i)" "\<forall>k < i. fst (bs ! k) < L" by simp_all
  have least: "fst (bs ! i) \<le> fst b" if srt: "sorted (map fst bs)" and b: "b \<in> set bs" "L \<le> fst b" for b
  proof -
    from b(1) obtain k where k: "k < length bs" "bs ! k = b" by (auto simp: in_set_conv_nth)
    with p(3) b(2) have "i \<le> k" by (metis not_less)
    with srt k(1) have "map fst bs ! i \<le> map fst bs ! k"
      by (simp add: sorted_iff_nth_mono)
    with k p(1) show ?thesis by simp
  qed
  show "\<exists>i < length bs. decode_bucket bs L = (int i, False) \<and> L \<le> fst (bs ! i)
         \<and> (\<forall>k < i. fst (bs ! k) < L)
         \<and> (sorted (map fst bs) \<longrightarrow> (\<forall>b \<in> set bs. L \<le> fst b \<longrightarrow> fst (bs ! i) \<le> fst b))"
    using i p least by (intro exI [of _ i]) (simp add: decode_bucket_def)
next
  assume "\<forall>b \<in> set bs. fst b < L"
  then have "decode_bucket_loop 0 bs L = None" by (simp add: decode_bucket_loop_None)
  then show "decode_bucket bs L = (int (length bs) - 1, True)"
    by (simp add: decode_bucket_def)
next
  show "decode_bucket buckets 8 = (2, False)"
    by (simp add: decode_bucket_def buckets_def)
next
  show "decode_bucket buckets 20 = (3, True)"
    by (simp add: decode_bucket_def buckets_def)
qed

theorem decode_bucket_first_fit_witness:
  "list_ex (\<lambda>b. 8 \<le> fst b) buckets \<and> sorted (map fst buckets)
   \<and> (\<exists>i < length buckets. decode_bucket buckets 8 = (int i, False)
          \<and> 8 \<le> fst (buckets ! i) \<and> fst (buckets ! i) \<le> fst (15 :: nat, 16 :: nat))
   \<and> list_all (\<lambda>b. fst b < 20) buckets
   \<and> decode_bucket buckets 20 = (int (length buckets) - 1, True)"
proof -
  have fit: "\<exists>b \<in> set buckets. (8::nat) \<le> fst b" by (simp add: buckets_def)
  have srt: "sorted (map fst buckets)" by (simp add: buckets_def)
  have mem: "(15, 16) \<in> set buckets" by (simp add: buckets_def)
  have none: "\<forall>b \<in> set buckets. fst b < (20::nat)" by (simp add: buckets_def)
  from decode_bucket_first_fit [of buckets 8] fit srt mem
  have "\<exists>i < length buckets. decode_bucket buckets 8 = (int i, False)
          \<and> 8 \<le> fst (buckets ! i) \<and> fst (buckets ! i) \<le> fst (15 :: nat, 16 :: nat)"
    by fastforce
  moreover from decode_bucket_first_fit [of buckets 20] none
  have "decode_bucket buckets 20 = (int (length buckets) - 1, True)" by blast
  ultimately show ?thesis
    using fit srt none by (simp add: list_ex_iff list_all_iff)
qed

section \<open>Floating-point arithmetic: proofs\<close>

lemma round_half_even_of_int [simp]: "round_half_even (of_int m) = m"
  by (simp add: round_half_even_def)

lemma round_half_even_error: "\<bar>of_int (round_half_even y) - y\<bar> \<le> 1 / 2"
  unfolding round_half_even_def by (auto simp: abs_if) linarith+

lemma round_half_even_bounds:
  "of_int (round_half_even y) \<le> y + 1 / 2" "y - 1 / 2 \<le> of_int (round_half_even y)"
  using round_half_even_error [of y] by linarith+

lemma round_half_even_mono:
  assumes "y \<le> z"
  shows "round_half_even y \<le> round_half_even z"
proof (cases "\<lfloor>y\<rfloor> = \<lfloor>z\<rfloor>")
  case True
  with assms show ?thesis unfolding round_half_even_def by (auto simp: not_less)
next
  case False
  with assms have lt: "\<lfloor>y\<rfloor> < \<lfloor>z\<rfloor>" using floor_mono [OF assms] by simp
  have "round_half_even y \<le> \<lfloor>y\<rfloor> + 1" unfolding round_half_even_def by auto
  moreover have "\<lfloor>z\<rfloor> \<le> round_half_even z" unfolding round_half_even_def by auto
  ultimately show ?thesis using lt by linarith
qed

lemma round_half_even_le_int: "y \<le> of_int N \<Longrightarrow> round_half_even y \<le> N"
  using round_half_even_mono [of y "of_int N"] by simp

lemma round_half_even_ge_int: "of_int N \<le> y \<Longrightarrow> N \<le> round_half_even y"
  using round_half_even_mono [of "of_int N" y] by simp

lemma two_powi_pos [simp]: "0 < (2 :: real) powi k"
  by (simp add: power_int_def)

lemma two_powr_powi: "(2 :: real) powr real_of_int k = 2 powi k"
  by (rule powr_real_of_int') simp_all

lemma floor_log2_bounds:
  assumes "x \<noteq> 0"
  shows "2 powi \<lfloor>log 2 \<bar>x\<bar>\<rfloor> \<le> \<bar>x\<bar>" and "\<bar>x\<bar> < 2 powi (\<lfloor>log 2 \<bar>x\<bar>\<rfloor> + 1)"
proof -
  from assms have pos: "0 < \<bar>x\<bar>" by simp
  have "2 powr real_of_int \<lfloor>log 2 \<bar>x\<bar>\<rfloor> \<le> \<bar>x\<bar>
      \<and> \<bar>x\<bar> < 2 powr real_of_int (\<lfloor>log 2 \<bar>x\<bar>\<rfloor> + 1)"
    using floor_log_eq_powr_iff [OF pos, of 2 "\<lfloor>log 2 \<bar>x\<bar>\<rfloor>"] by simp
  then show "2 powi \<lfloor>log 2 \<bar>x\<bar>\<rfloor> \<le> \<bar>x\<bar>" and "\<bar>x\<bar> < 2 powi (\<lfloor>log 2 \<bar>x\<bar>\<rfloor> + 1)"
    by (simp_all only: two_powr_powi)
qed

lemma floor_log2_eqI:
  assumes "2 powi e \<le> \<bar>x\<bar>" and "\<bar>x\<bar> < 2 powi (e + 1)"
  shows "\<lfloor>log 2 \<bar>x\<bar>\<rfloor> = e"
proof -
  from assms(1) have pos: "0 < \<bar>x\<bar>" using two_powi_pos [of e] by linarith
  have "2 powr real_of_int e \<le> \<bar>x\<bar> \<and> \<bar>x\<bar> < 2 powr real_of_int (e + 1)"
    using assms by (simp only: two_powr_powi)
  then show ?thesis using floor_log_eq_powr_iff [OF pos, of 2 e] by simp
qed

lemma ulp_exponent_mono:
  assumes "x \<noteq> 0" and "\<bar>x\<bar> \<le> \<bar>y\<bar>"
  shows "ulp_exponent x \<le> ulp_exponent y"
proof -
  from assms have "0 < \<bar>x\<bar>" by simp
  with assms(2) have "log 2 \<bar>x\<bar> \<le> log 2 \<bar>y\<bar>" by simp
  then have "\<lfloor>log 2 \<bar>x\<bar>\<rfloor> \<le> \<lfloor>log 2 \<bar>y\<bar>\<rfloor>" by (rule floor_mono)
  then show ?thesis by (simp add: ulp_exponent_def)
qed

lemma round_double_eval:
  assumes "2 powi e \<le> \<bar>x\<bar>" and "\<bar>x\<bar> < 2 powi (e + 1)" and "- 1022 \<le> e"
  shows "round_double x = of_int (round_half_even (x / 2 powi (e - 52))) * 2 powi (e - 52)"
proof -
  from assms(1) have "0 < \<bar>x\<bar>" using two_powi_pos [of e] by linarith
  then have nz: "x \<noteq> 0" by simp
  have "ulp_exponent x = e - 52"
    using floor_log2_eqI [OF assms(1,2)] assms(3) by (simp add: ulp_exponent_def)
  with nz show ?thesis by (simp add: round_double_def)
qed

lemma round_double_nonneg: "0 \<le> x \<Longrightarrow> 0 \<le> round_double x"
proof -
  assume x: "0 \<le> x"
  then have "0 \<le> x / 2 powi ulp_exponent x" by simp
  then have "0 \<le> round_half_even (x / 2 powi ulp_exponent x)"
    using round_half_even_ge_int [of 0] by simp
  then show ?thesis by (simp add: round_double_def)
qed

lemma round_double_error:
  "\<bar>round_double x - x\<bar> \<le> 2 powi ulp_exponent x / 2"
proof (cases "x = 0")
  case True
  then show ?thesis by (simp add: round_double_def)
next
  case False
  let ?u = "(2 :: real) powi ulp_exponent x"
  have u: "0 < ?u" by simp
  have "round_double x - x = (of_int (round_half_even (x / ?u)) - x / ?u) * ?u"
    using False u by (simp add: round_double_def field_simps)
  then have "\<bar>round_double x - x\<bar> = \<bar>of_int (round_half_even (x / ?u)) - x / ?u\<bar> * ?u"
    using u by (simp add: abs_mult)
  also have "\<dots> \<le> (1 / 2) * ?u"
    using round_half_even_error [of "x / ?u"] u by (intro mult_right_mono) simp_all
  finally show ?thesis by simp
qed

lemma two_powi_int: "0 \<le> k \<Longrightarrow> (2 :: real) powi k = of_int (2 ^ nat k)"
  by (simp add: power_int_def)

lemma round_double_of_int:
  assumes "0 \<le> n" and "n < 2 ^ 53"
  shows "round_double (of_int n) = of_int n"
proof (cases "n = 0")
  case True
  then show ?thesis by (simp add: round_double_def)
next
  case False
  let ?x = "real_of_int n"
  let ?e = "\<lfloor>log 2 \<bar>?x\<bar>\<rfloor>"
  from False assms have x1: "1 \<le> ?x" and nz: "?x \<noteq> 0" by simp_all
  have hi: "?e \<le> 52"
  proof (rule ccontr)
    assume "\<not> ?e \<le> 52"
    then have "(2 :: real) powi 53 \<le> 2 powi ?e" by (intro power_int_increasing) simp_all
    also have "\<dots> \<le> \<bar>?x\<bar>" by (rule floor_log2_bounds(1) [OF nz])
    finally have "(2 :: real) ^ 53 \<le> ?x" using x1 by simp
    moreover have "?x < 2 ^ 53" using assms(2) by (metis of_int_less_iff of_int_numeral of_int_power)
    ultimately show False by simp
  qed
  have lo: "0 \<le> ?e"
  proof (rule ccontr)
    assume "\<not> 0 \<le> ?e"
    then have "?e + 1 \<le> 0" by linarith
    then have "(2 :: real) powi (?e + 1) \<le> 2 powi 0" by (intro power_int_increasing) simp_all
    with floor_log2_bounds(2) [OF nz] x1 show False by simp
  qed
  have k: "ulp_exponent ?x = ?e - 52" using lo by (simp add: ulp_exponent_def)
  have "(2 :: real) powi (?e - 52) = inverse (2 powi (52 - ?e))"
    using power_int_minus [of "2 :: real" "52 - ?e"] by simp
  also have "\<dots> = inverse (of_int (2 ^ nat (52 - ?e)))"
    using hi by (simp add: two_powi_int)
  finally have u: "(2 :: real) powi (?e - 52) = inverse (of_int (2 ^ nat (52 - ?e)))" .
  have "?x / 2 powi (?e - 52) = of_int (n * 2 ^ nat (52 - ?e))"
    by (simp add: u field_simps)
  then have "round_half_even (?x / 2 powi (?e - 52)) = n * 2 ^ nat (52 - ?e)"
    by (simp only: round_half_even_of_int)
  then have "round_double ?x = of_int (n * 2 ^ nat (52 - ?e)) * inverse (of_int (2 ^ nat (52 - ?e)))"
    using nz by (simp only: round_double_def k u if_False)
  then show ?thesis by simp
qed

lemma round_double_one [simp]: "round_double 1 = 1"
  using round_double_of_int [of 1] by simp

lemma round_double_mono:
  assumes "0 \<le> x" and "x \<le> y"
  shows "round_double x \<le> round_double y"
proof (cases "x = 0")
  case True
  with assms round_double_nonneg [of y] show ?thesis by (simp add: round_double_def)
next
  case False
  with assms have x: "0 < x" and y: "0 < y" by simp_all
  then have ynz: "y \<noteq> 0" by simp
  let ?kx = "ulp_exponent x" and ?ky = "ulp_exponent y"
  have kle: "?kx \<le> ?ky" using ulp_exponent_mono [OF False, of y] assms x by simp
  have rx: "round_double x = of_int (round_half_even (x / 2 powi ?kx)) * 2 powi ?kx"
    using False by (simp add: round_double_def)
  have ry: "round_double y = of_int (round_half_even (y / 2 powi ?ky)) * 2 powi ?ky"
    using ynz by (simp add: round_double_def)
  show ?thesis
  proof (cases "?kx = ?ky")
    case True
    have "x / 2 powi ?ky \<le> y / 2 powi ?ky" using assms(2) by (simp add: divide_right_mono)
    then have "round_half_even (x / 2 powi ?ky) \<le> round_half_even (y / 2 powi ?ky)"
      by (rule round_half_even_mono)
    then have "real_of_int (round_half_even (x / 2 powi ?ky)) * 2 powi ?ky
        \<le> real_of_int (round_half_even (y / 2 powi ?ky)) * 2 powi ?ky"
      by (intro mult_right_mono) simp_all
    then show ?thesis by (simp only: rx ry True)
  next
    case neq: False
    with kle have klt: "?kx < ?ky" by simp
    let ?ex = "\<lfloor>log 2 \<bar>x\<bar>\<rfloor>" and ?ey = "\<lfloor>log 2 \<bar>y\<bar>\<rfloor>"
    from klt have ky: "?ky = ?ey - 52" and exy: "?ex + 1 \<le> ?ey" and kxy: "?kx < ?ey - 52"
      by (auto simp: ulp_exponent_def max_def split: if_splits)
    have "x < 2 powi (?ex + 1)" using floor_log2_bounds(2) [OF False] x by simp
    also have "\<dots> \<le> 2 powi ?ey" using exy by (intro power_int_increasing) simp_all
    finally have xlt: "x < 2 powi ?ey" .
    have ylo: "2 powi ?ey \<le> y" using floor_log2_bounds(1) [OF ynz] y by simp
    define d where "d = ?ey - ?kx"
    have dpos: "0 \<le> d" using kxy by (simp add: d_def)
    have split: "(2 :: real) powi ?ey = 2 powi d * 2 powi ?kx"
      unfolding d_def by (simp add: power_int_add [symmetric])
    have "x / 2 powi ?kx \<le> 2 powi d"
      using xlt by (simp add: split field_simps)
    then have "x / 2 powi ?kx \<le> of_int (2 ^ nat d)" by (simp only: two_powi_int [OF dpos])
    then have "round_half_even (x / 2 powi ?kx) \<le> 2 ^ nat d" by (rule round_half_even_le_int)
    then have "real_of_int (round_half_even (x / 2 powi ?kx)) \<le> of_int (2 ^ nat d)"
      by (simp only: of_int_le_iff)
    then have "real_of_int (round_half_even (x / 2 powi ?kx)) \<le> 2 powi d"
      by (simp only: two_powi_int [OF dpos])
    then have "real_of_int (round_half_even (x / 2 powi ?kx)) * 2 powi ?kx \<le> 2 powi d * 2 powi ?kx"
      by (intro mult_right_mono) simp_all
    then have a: "round_double x \<le> 2 powi ?ey" by (simp only: rx split)
    have "(2 :: real) powi (52 + ?ky) = 2 powi 52 * 2 powi ?ky"
      by (rule power_int_add) simp
    moreover have "52 + ?ky = ?ey" using ky by simp
    ultimately have split': "(2 :: real) powi ?ey = 2 powi 52 * 2 powi ?ky" by (simp only:)
    have "2 powi 52 \<le> y / 2 powi ?ky"
      using ylo by (simp add: split' field_simps)
    then have "of_int (2 ^ 52) \<le> y / 2 powi ?ky" by simp
    then have "2 ^ 52 \<le> round_half_even (y / 2 powi ?ky)" by (rule round_half_even_ge_int)
    then have "real_of_int (2 ^ 52) \<le> real_of_int (round_half_even (y / 2 powi ?ky))"
      by (simp only: of_int_le_iff)
    then have "2 powi 52 \<le> real_of_int (round_half_even (y / 2 powi ?ky))" by simp
    then have "2 powi 52 * 2 powi ?ky \<le> real_of_int (round_half_even (y / 2 powi ?ky)) * 2 powi ?ky"
      by (intro mult_right_mono) simp_all
    then have b: "2 powi ?ey \<le> round_double y" by (simp only: ry split')
    from a b show ?thesis by linarith
  qed
qed

lemma round_double_unit_error:
  assumes "0 \<le> x" and "x \<le> 1"
  shows "\<bar>round_double x - x\<bar> \<le> 1 / 2 ^ 54"
proof (cases "x = 0 \<or> x = 1")
  case True
  then show ?thesis
  proof
    assume "x = 0"
    then show ?thesis by (simp add: round_double_def)
  next
    assume "x = 1"
    then show ?thesis by simp
  qed
next
  case False
  with assms have x: "0 < x" "x < 1" and nz: "x \<noteq> 0" by auto
  have "\<lfloor>log 2 \<bar>x\<bar>\<rfloor> \<le> - 1"
  proof (rule ccontr)
    assume "\<not> \<lfloor>log 2 \<bar>x\<bar>\<rfloor> \<le> - 1"
    then have "0 \<le> \<lfloor>log 2 \<bar>x\<bar>\<rfloor>" by linarith
    then have "(2 :: real) powi 0 \<le> 2 powi \<lfloor>log 2 \<bar>x\<bar>\<rfloor>" by (intro power_int_increasing) simp_all
    with floor_log2_bounds(1) [OF nz] x show False by simp
  qed
  then have "ulp_exponent x \<le> - 53" by (simp add: ulp_exponent_def)
  then have "(2 :: real) powi ulp_exponent x \<le> 2 powi (- 53)"
    by (intro power_int_increasing) simp_all
  with round_double_error [of x] have "\<bar>round_double x - x\<bar> \<le> 2 powi (- 53) / 2" by linarith
  then show ?thesis by (simp add: power_int_minus)
qed

lemma py_float_exact: "0 \<le> n \<Longrightarrow> n < 2 ^ 53 \<Longrightarrow> py_float n = of_int n"
  unfolding py_float_def by (rule round_double_of_int)

lemma py_float_ge_one: "1 \<le> n \<Longrightarrow> 1 \<le> py_float n"
proof -
  assume "1 \<le> n"
  then have "(1 :: real) \<le> of_int n" by simp
  with round_double_mono [of 1 "of_int n"] show ?thesis by (simp add: py_float_def)
qed

lemma py_float_mono: "0 \<le> m \<Longrightarrow> m \<le> n \<Longrightarrow> py_float m \<le> py_float n"
  unfolding py_float_def by (rule round_double_mono) simp_all

lemma py_float_nonneg: "0 \<le> n \<Longrightarrow> 0 \<le> py_float n"
  unfolding py_float_def by (rule round_double_nonneg) simp

section \<open>Training-mode bucket selection: proofs\<close>

lemma py_min_nonempty: "xs \<noteq> [] \<Longrightarrow> py_min xs = Inr (Min (set xs))"
  by (cases xs) (simp_all add: py_min_def Min.set_eq_fold [symmetric])

lemma py_min_empty: "py_min [] = Inl ValueError"
  by (simp add: py_min_def)

lemma select_bucket_iff:
  "select_bucket sc u = Inr i \<longleftrightarrow> i < length sc \<and> u < sc ! i \<and> (\<forall>j < i. sc ! j \<le> u)"
proof -
  let ?xs = "filter (\<lambda>i. sc ! i > u) [0..<length sc]"
  have set_xs: "set ?xs = {i. i < length sc \<and> u < sc ! i}" by auto
  show ?thesis
  proof (cases "?xs = []")
    case True
    then have "\<forall>x \<in> set [0..<length sc]. \<not> u < sc ! x"
      by (simp only: filter_empty_conv)
    then have none: "\<forall>i < length sc. \<not> u < sc ! i" by simp
    from True have "select_bucket sc u = Inl ValueError"
      by (simp only: select_bucket_def py_min_empty)
    with none show ?thesis by auto
  next
    case False
    then have ne: "set ?xs \<noteq> {}" by (simp only: set_empty not_False_eq_True)
    have sel: "select_bucket sc u = Inr (Min (set ?xs))"
      using False by (simp add: select_bucket_def py_min_nonempty)
    have fin: "finite (set ?xs)" by simp
    show ?thesis
    proof
      assume "select_bucket sc u = Inr i"
      with sel have i: "i = Min (set ?xs)" by simp
      from Min_in [OF fin ne] i have "i \<in> set ?xs" by simp
      then have a: "i < length sc" "u < sc ! i" by auto
      have "sc ! j \<le> u" if "j < i" for j
      proof (rule ccontr)
        assume "\<not> sc ! j \<le> u"
        with that a(1) have "j \<in> set ?xs" by auto
        from Min_le [OF fin this] i that show False by simp
      qed
      with a show "i < length sc \<and> u < sc ! i \<and> (\<forall>j < i. sc ! j \<le> u)" by blast
    next
      assume r: "i < length sc \<and> u < sc ! i \<and> (\<forall>j < i. sc ! j \<le> u)"
      then have mem: "i \<in> set ?xs" by auto
      have "Min (set ?xs) = i"
      proof (rule Min_eqI [OF fin _ mem])
        fix y assume "y \<in> set ?xs"
        then have "u < sc ! y" by auto
        with r show "i \<le> y" by (metis not_less)
      qed
      with sel show "select_bucket sc u = Inr i" by simp
    qed
  qed
qed

lemma select_bucket_error_iff:
  "(\<exists>e. select_bucket sc u = Inl e) \<longleftrightarrow> (\<forall>i < length sc. sc ! i \<le> u)"
proof -
  let ?xs = "filter (\<lambda>i. sc ! i > u) [0..<length sc]"
  show ?thesis
  proof (cases "?xs = []")
    case True
    then have "\<forall>x \<in> set [0..<length sc]. \<not> u < sc ! x"
      by (simp only: filter_empty_conv)
    then have none: "\<forall>i < length sc. \<not> u < sc ! i" by simp
    from True have "select_bucket sc u = Inl ValueError"
      by (simp only: select_bucket_def py_min_empty)
    with none show ?thesis by (auto simp: not_less)
  next
    case False
    then obtain i where "i \<in> set ?xs" by (cases ?xs) auto
    then have "i < length sc" "u < sc ! i" by auto
    then have "\<not> (\<forall>i < length sc. sc ! i \<le> u)" by (auto simp: not_le)
    with False show ?thesis
      by (simp add: select_bucket_def py_min_nonempty)
  qed
qed

lemma sum_list_take_Suc_nth:
  "i < length cs \<Longrightarrow> sum_list (take (Suc i) cs) = (\<Sum>j\<le>i. cs ! j)" for cs :: "nat list"
proof (induction i)
  case 0
  then show ?case by (cases cs) simp_all
next
  case (Suc i)
  then show ?case by (simp add: take_Suc_conv_app_nth)
qed

lemma sum_list_take_mono:
  "i \<le> j \<Longrightarrow> sum_list (take i cs) \<le> sum_list (take j cs)" for cs :: "nat list"
proof -
  assume "i \<le> j"
  then have "take j cs = take i cs @ take (j - i) (drop i cs)"
    by (metis le_add_diff_inverse take_add)
  then show ?thesis by simp
qed

lemma sum_list_take_le: "sum_list (take i cs) \<le> sum_list cs" for cs :: "nat list"
  using sum_list_take_mono [of i "max i (length cs)" cs] by simp

lemma prefix_sum_mono: "i \<le> j \<Longrightarrow> (\<Sum>k\<le>i. cs ! k) \<le> (\<Sum>k\<le>j. (cs ! k :: nat))"
  by (rule sum_mono2) auto

lemma prefix_sum_all: "cs \<noteq> [] \<Longrightarrow> (\<Sum>k\<le>length cs - 1. cs ! k) = sum_list (cs :: nat list)"
  using sum_list_take_Suc_nth [of "length cs - 1" cs] by simp

lemma prefix_sum_le: "i < length cs \<Longrightarrow> (\<Sum>k\<le>i. cs ! k) \<le> sum_list (cs :: nat list)"
  using sum_list_take_Suc_nth [of i cs] sum_list_take_le [of "Suc i" cs] by simp

lemma train_buckets_scale_ok:
  assumes "0 < sum_list cs"
  shows "train_buckets_scale cs =
     Inr (map (\<lambda>i. float_div (py_float (int (sum_list (take (Suc i) cs))))
                          (py_float (int (sum_list cs)))) [0..<length cs])"
proof -
  from assms have "1 \<le> int (sum_list cs)" by linarith
  then have "1 \<le> py_float (int (sum_list cs))" by (rule py_float_ge_one)
  then have "py_float (int (sum_list cs)) \<noteq> 0" by linarith
  then show ?thesis by (simp add: train_buckets_scale_def Let_def)
qed

lemma scale_nth:
  "i < length cs \<Longrightarrow>
   map (\<lambda>i. float_div (py_float (int (sum_list (take (Suc i) cs))))
                   (py_float (int (sum_list cs)))) [0..<length cs] ! i
     = float_div (py_float (int (\<Sum>j\<le>i. cs ! j))) (py_float (int (sum_list cs)))"
  by (simp add: sum_list_take_Suc_nth)

lemma scale_nth_exact:
  assumes "sum_list cs < 2 ^ 53" and "i < length cs"
  shows "map (\<lambda>i. float_div (py_float (int (sum_list (take (Suc i) cs))))
                   (py_float (int (sum_list cs)))) [0..<length cs] ! i
     = round_double (real (\<Sum>j\<le>i. cs ! j) / real (sum_list cs))"
proof -
  have t: "int (sum_list cs) < 2 ^ 53" using assms(1) by (metis of_nat_less_iff of_nat_numeral of_nat_power)
  from prefix_sum_le [OF assms(2)] have "int (\<Sum>j\<le>i. cs ! j) \<le> int (sum_list cs)"
    by (simp only: of_nat_le_iff)
  with t have p: "int (\<Sum>j\<le>i. cs ! j) < 2 ^ 53" by linarith
  have "py_float (int (sum_list cs)) = real_of_int (int (sum_list cs))"
    by (rule py_float_exact [OF of_nat_0_le_iff t])
  then have a: "py_float (int (sum_list cs)) = real (sum_list cs)"
    by (simp only: of_int_of_nat_eq)
  have "py_float (int (\<Sum>j\<le>i. cs ! j)) = real_of_int (int (\<Sum>j\<le>i. cs ! j))"
    by (rule py_float_exact [OF of_nat_0_le_iff p])
  then have b: "py_float (int (\<Sum>j\<le>i. cs ! j)) = real (\<Sum>j\<le>i. cs ! j)"
    by (simp only: of_int_of_nat_eq)
  have "map (\<lambda>i. float_div (py_float (int (sum_list (take (Suc i) cs))))
                   (py_float (int (sum_list cs)))) [0..<length cs] ! i
     = float_div (py_float (int (\<Sum>j\<le>i. cs ! j))) (py_float (int (sum_list cs)))"
    by (rule scale_nth [OF assms(2)])
  also have "\<dots> = round_double (real (\<Sum>j\<le>i. cs ! j) / real (sum_list cs))"
    by (simp only: float_div_def a b)
  finally show ?thesis .
qed

lemma scale_last:
  assumes "0 < sum_list cs"
  shows "last (map (\<lambda>i. float_div (py_float (int (sum_list (take (Suc i) cs))))
                          (py_float (int (sum_list cs)))) [0..<length cs]) = 1"
proof -
  from assms have ne: "cs \<noteq> []" by auto
  then have k: "length cs - 1 < length cs" by simp
  from assms have "1 \<le> int (sum_list cs)" by linarith
  then have "1 \<le> py_float (int (sum_list cs))" by (rule py_float_ge_one)
  then have "py_float (int (sum_list cs)) \<noteq> 0" by linarith
  then have one: "float_div (py_float (int (sum_list cs))) (py_float (int (sum_list cs))) = 1"
    by (simp add: float_div_def)
  have "last (map (\<lambda>i. float_div (py_float (int (sum_list (take (Suc i) cs))))
                          (py_float (int (sum_list cs)))) [0..<length cs])
      = map (\<lambda>i. float_div (py_float (int (sum_list (take (Suc i) cs))))
                          (py_float (int (sum_list cs)))) [0..<length cs] ! (length cs - 1)"
    using ne by (simp add: last_conv_nth)
  also have "\<dots> = float_div (py_float (int (\<Sum>j\<le>length cs - 1. cs ! j))) (py_float (int (sum_list cs)))"
    by (rule scale_nth [OF k])
  also have "\<dots> = 1" by (simp only: prefix_sum_all [OF ne] one)
  finally show ?thesis .
qed

lemma rd_quarter: "round_double (1 / 4) = 1 / 4"
  using round_double_eval [of "- 2" "1 / 4"]
  by (simp add: round_half_even_def power_int_minus)

lemma rd_three_quarters: "round_double (3 / 4) = 3 / 4"
  using round_double_eval [of "- 1" "3 / 4"]
  by (simp add: round_half_even_def power_int_minus)

lemma rd_two_thirds: "round_double (2 / 3) = 6004799503160661 / 2 ^ 53"
  using round_double_eval [of "- 1" "2 / 3"]
  by (simp add: round_half_even_def power_int_minus)

text \<open>
  C1, as amended. For every occupancy vector \<open>cs\<close> with positive total (below \<open>2 ^ 53\<close>,
  so that the integer sums convert exactly), the cumulative scale \<open>scale ! i\<close> is the
  double nearest to \<open>(cs ! 0 + ... + cs ! i) / total\<close>, within \<open>2 ^ - 54\<close> of it; for every
  draw \<open>u\<close> in \<open>[0, 1)\<close> the selector returns the smallest index \<open>i\<close> with
  \<open>scale ! i > u\<close>; and the draws in \<open>[0, 1)\<close> that select bucket \<open>i\<close> are exactly the
  half-open interval from the previous scale (0 for the first bucket) to \<open>scale ! i\<close>,
  whose length is within \<open>2 ^ - 53\<close> of \<open>cs ! i / total\<close>.
\<close>

theorem train_bucket_selection_rounded:
  assumes total: "0 < sum_list cs" and small: "sum_list cs < 2 ^ 53"
  shows "\<exists>scale. train_buckets_scale cs = Inr scale \<and> length scale = length cs
    \<and> (\<forall>i < length cs.
          scale ! i = round_double (real (\<Sum>j\<le>i. cs ! j) / real (sum_list cs))
          \<and> \<bar>scale ! i - real (\<Sum>j\<le>i. cs ! j) / real (sum_list cs)\<bar> \<le> 1 / 2 ^ 54)
    \<and> (\<forall>u. 0 \<le> u \<and> u < 1 \<longrightarrow>
          (\<exists>i < length cs. select_bucket scale u = Inr i \<and> u < scale ! i
             \<and> (\<forall>j < i. scale ! j \<le> u)))
    \<and> (\<forall>i < length cs.
          {u. 0 \<le> u \<and> u < 1 \<and> select_bucket scale u = Inr i}
            = {(if i = 0 then 0 else scale ! (i - 1)) ..< scale ! i}
          \<and> \<bar>(scale ! i - (if i = 0 then 0 else scale ! (i - 1)))
               - real (cs ! i) / real (sum_list cs)\<bar> \<le> 1 / 2 ^ 53)"
proof -
  define T where "T = real (sum_list cs)"
  define q where "q = (\<lambda>i. real (\<Sum>j\<le>i. cs ! j) / T)"
  define S where "S = map (\<lambda>i. float_div (py_float (int (sum_list (take (Suc i) cs))))
                          (py_float (int (sum_list cs)))) [0..<length cs]"
  have Tpos: "0 < T" using total by (simp add: T_def)
  have ne: "cs \<noteq> []" using total by auto
  have len: "length S = length cs" by (simp add: S_def)
  have nth: "S ! i = round_double (q i)" if "i < length cs" for i
    using scale_nth_exact [OF small that] by (simp add: S_def q_def T_def)
  have q0: "0 \<le> q i" for i
    unfolding q_def using Tpos by (intro divide_nonneg_pos of_nat_0_le_iff)
  have qmono: "q i \<le> q j" if "i \<le> j" for i j
  proof -
    have "real (\<Sum>k\<le>i. cs ! k) \<le> real (\<Sum>k\<le>j. cs ! k)"
      using prefix_sum_mono [OF that, of cs] by (simp only: of_nat_le_iff)
    then show ?thesis unfolding q_def using Tpos by (simp only: divide_right_mono less_imp_le)
  qed
  have qtop: "q (length cs - 1) = 1"
  proof -
    have "q (length cs - 1) = T / T" by (simp only: q_def prefix_sum_all [OF ne] T_def)
    also have "\<dots> = 1" using Tpos by simp
    finally show ?thesis .
  qed
  have q1: "q i \<le> 1" if "i < length cs" for i
    using qmono [of i "length cs - 1"] that qtop by simp
  have qstep: "q (Suc m) - q m = real (cs ! Suc m) / T" for m
  proof -
    have "(\<Sum>j\<le>Suc m. cs ! j) = (\<Sum>j\<le>m. cs ! j) + cs ! Suc m" by simp
    then have "real (\<Sum>j\<le>Suc m. cs ! j) = real (\<Sum>j\<le>m. cs ! j) + real (cs ! Suc m)"
      by (simp only: of_nat_add)
    then show ?thesis unfolding q_def by (simp only: add_divide_distrib add_diff_cancel_left')
  qed
  have qzero: "q 0 = real (cs ! 0) / T" by (simp add: q_def)
  have err: "\<bar>S ! i - q i\<bar> \<le> 1 / 2 ^ 54" if "i < length cs" for i
    using round_double_unit_error [OF q0 q1 [OF that]] by (simp only: nth [OF that])
  have mono: "S ! i \<le> S ! j" if "i \<le> j" "j < length cs" for i j
  proof -
    from that have i: "i < length cs" by simp
    have "round_double (q i) \<le> round_double (q j)"
      by (rule round_double_mono [OF q0 qmono [OF that(1)]])
    then show ?thesis by (simp only: nth [OF i] nth [OF that(2)])
  qed
  have top: "S ! (length cs - 1) = 1"
  proof -
    have "length cs - 1 < length cs" using ne by simp
    then have "S ! (length cs - 1) = round_double (q (length cs - 1))" by (rule nth)
    then show ?thesis by (simp only: qtop round_double_one)
  qed
  have nonneg: "0 \<le> S ! i" if "i < length cs" for i
    using round_double_nonneg [OF q0 [of i]] by (simp only: nth [OF that])
  have le1: "S ! i \<le> 1" if "i < length cs" for i
    using mono [of i "length cs - 1"] that top by simp
  have step: "\<bar>(S ! i - (if i = 0 then 0 else S ! (i - 1))) - real (cs ! i) / T\<bar> \<le> 1 / 2 ^ 53"
    if "i < length cs" for i
  proof (cases i)
    case 0
    have "\<bar>S ! 0 - q 0\<bar> \<le> 1 / 2 ^ 54" using that 0 err by simp
    then have "\<bar>S ! 0 - real (cs ! 0) / T\<bar> \<le> 1 / 2 ^ 54" by (simp only: qzero)
    then show ?thesis using 0 by simp
  next
    case (Suc m)
    then have m: "m < length cs" using that by simp
    have a: "\<bar>S ! Suc m - q (Suc m)\<bar> \<le> 1 / 2 ^ 54" using that Suc err by simp
    have b: "\<bar>S ! m - q m\<bar> \<le> 1 / 2 ^ 54" using m err by simp
    have "(S ! Suc m - S ! m) - real (cs ! Suc m) / T
        = (S ! Suc m - q (Suc m)) - (S ! m - q m)"
      using qstep [of m] by linarith
    then have "\<bar>(S ! Suc m - S ! m) - real (cs ! Suc m) / T\<bar> \<le> 1 / 2 ^ 54 + 1 / 2 ^ 54"
      using a b by linarith
    then show ?thesis using Suc by simp
  qed
  have sel: "\<exists>i < length cs. select_bucket S u = Inr i \<and> u < S ! i \<and> (\<forall>j < i. S ! j \<le> u)"
    if u: "0 \<le> u \<and> u < 1" for u
  proof -
    have "\<not> (\<forall>i < length S. S ! i \<le> u)"
      using top u ne len by (auto intro!: exI [of _ "length cs - 1"])
    then have "\<not> (\<exists>e. select_bucket S u = Inl e)"
      by (simp only: select_bucket_error_iff not_False_eq_True)
    then obtain i where "select_bucket S u = Inr i" by (cases "select_bucket S u") auto
    then show ?thesis using select_bucket_iff [of S u i] len by auto
  qed
  have interval: "{u. 0 \<le> u \<and> u < 1 \<and> select_bucket S u = Inr i}
            = {(if i = 0 then 0 else S ! (i - 1)) ..< S ! i}" if i: "i < length cs" for i
  proof (intro set_eqI iffI)
    fix u assume "u \<in> {u. 0 \<le> u \<and> u < 1 \<and> select_bucket S u = Inr i}"
    then have u: "0 \<le> u" "u < 1" and s: "select_bucket S u = Inr i" by simp_all
    from s have "u < S ! i" and below: "\<forall>j < i. S ! j \<le> u"
      by (simp_all add: select_bucket_iff)
    then show "u \<in> {(if i = 0 then 0 else S ! (i - 1)) ..< S ! i}"
      using u by (cases i) simp_all
  next
    fix u assume "u \<in> {(if i = 0 then 0 else S ! (i - 1)) ..< S ! i}"
    then have lo: "(if i = 0 then 0 else S ! (i - 1)) \<le> u" and hi: "u < S ! i" by simp_all
    have u0: "0 \<le> u"
    proof (cases i)
      case 0
      with lo show ?thesis by simp
    next
      case (Suc m)
      with lo i nonneg [of m] show ?thesis by simp
    qed
    have u1: "u < 1" using hi le1 [OF i] by simp
    have "S ! j \<le> u" if "j < i" for j
    proof -
      from that have "i \<noteq> 0" "j \<le> i - 1" "i - 1 < length cs" using i by simp_all
      with mono [of j "i - 1"] lo show ?thesis by simp
    qed
    then have "select_bucket S u = Inr i"
      using hi i len by (simp add: select_bucket_iff)
    with u0 u1 show "u \<in> {u. 0 \<le> u \<and> u < 1 \<and> select_bucket S u = Inr i}" by simp
  qed
  have run: "train_buckets_scale cs = Inr S"
    using train_buckets_scale_ok [OF total] by (simp add: S_def)
  have A: "\<forall>i < length cs.
          S ! i = round_double (real (\<Sum>j\<le>i. cs ! j) / real (sum_list cs))
          \<and> \<bar>S ! i - real (\<Sum>j\<le>i. cs ! j) / real (sum_list cs)\<bar> \<le> 1 / 2 ^ 54"
    using nth err unfolding q_def T_def by simp
  have B: "\<forall>u. 0 \<le> u \<and> u < 1 \<longrightarrow>
          (\<exists>i < length cs. select_bucket S u = Inr i \<and> u < S ! i \<and> (\<forall>j < i. S ! j \<le> u))"
    using sel by (intro allI impI)
  have C: "\<forall>i < length cs.
          {u. 0 \<le> u \<and> u < 1 \<and> select_bucket S u = Inr i}
            = {(if i = 0 then 0 else S ! (i - 1)) ..< S ! i}
          \<and> \<bar>(S ! i - (if i = 0 then 0 else S ! (i - 1)))
               - real (cs ! i) / real (sum_list cs)\<bar> \<le> 1 / 2 ^ 53"
    using interval step unfolding T_def by simp
  show ?thesis by (intro exI [of _ S] conjI run len A B C)
qed

lemma scale_example: "train_buckets_scale [1, 2, 1] = Inr [1 / 4, 3 / 4, 1]"
  by (simp add: train_buckets_scale_def upt_rec float_div_def py_float_exact
      rd_quarter rd_three_quarters)

theorem train_bucket_selection_rounded_witness:
  "0 < sum_list [1, 2, 1 :: nat] \<and> sum_list [1, 2, 1 :: nat] < 2 ^ 53
   \<and> train_buckets_scale [1, 2, 1] = Inr [1 / 4, 3 / 4, 1]
   \<and> (\<exists>i < 3. select_bucket [1 / 4, 3 / 4, 1] (1 / 2) = Inr i \<and> 1 / 2 < [1 / 4, 3 / 4, 1 :: real] ! i)
   \<and> {u. 0 \<le> u \<and> u < 1 \<and> select_bucket [1 / 4, 3 / 4, 1] u = Inr 1} = {1 / 4 ..< 3 / 4}
   \<and> \<bar>(3 / 4 - 1 / 4 :: real) - real ([1, 2, 1] ! 1) / real (sum_list [1, 2, 1])\<bar> \<le> 1 / 2 ^ 53"
proof -
  have pos: "0 < sum_list [1, 2, 1 :: nat]" by simp
  have small: "sum_list [1, 2, 1 :: nat] < 2 ^ 53" by simp
  from train_bucket_selection_rounded [OF pos small] obtain scale where
    s: "train_buckets_scale [1, 2, 1] = Inr scale"
    and sel': "\<forall>u. 0 \<le> u \<and> u < 1 \<longrightarrow>
          (\<exists>i < length [1, 2, 1 :: nat]. select_bucket scale u = Inr i \<and> u < scale ! i
             \<and> (\<forall>j < i. scale ! j \<le> u))"
    and int': "\<forall>i < length [1, 2, 1 :: nat].
          {u. 0 \<le> u \<and> u < 1 \<and> select_bucket scale u = Inr i}
            = {(if i = 0 then 0 else scale ! (i - 1)) ..< scale ! i}
          \<and> \<bar>(scale ! i - (if i = 0 then 0 else scale ! (i - 1)))
               - real ([1, 2, 1] ! i) / real (sum_list [1, 2, 1])\<bar> \<le> 1 / 2 ^ 53"
    by blast
  from s scale_example have eq: "scale = [1 / 4, 3 / 4, 1]" by simp
  note sel = sel' [unfolded eq] and int = int' [unfolded eq]
  from sel [rule_format, of "1 / 2"]
  have a: "\<exists>i < 3. select_bucket [1 / 4, 3 / 4, 1] (1 / 2) = Inr i \<and> 1 / 2 < [1 / 4, 3 / 4, 1 :: real] ! i"
    by auto
  from int [rule_format, of 1]
  have b: "{u. 0 \<le> u \<and> u < 1 \<and> select_bucket [1 / 4, 3 / 4, 1] u = Inr 1} = {1 / 4 ..< 3 / 4}"
    and c: "\<bar>(3 / 4 - 1 / 4 :: real) - real ([1, 2, 1] ! 1) / real (sum_list [1, 2, 1])\<bar> \<le> 1 / 2 ^ 53"
    by simp_all
  show ?thesis by (intro conjI pos small scale_example a b c)
qed

lemma scale_two_one: "train_buckets_scale [2, 1, 0, 0] = Inr [6004799503160661 / 2 ^ 53, 1, 1, 1]"
  by (simp add: train_buckets_scale_def upt_rec float_div_def py_float_exact rd_two_thirds)

theorem exact_share_selection_counterexample:
  "train_buckets_scale [2, 1, 0, 0] = Inr [6004799503160661 / 2 ^ 53, 1, 1, 1]
   \<and> [6004799503160661 / 2 ^ 53, 1, 1, 1 :: real] ! 0
       \<noteq> real (sum_list (take 1 [2, 1, 0, 0])) / real (sum_list [2, 1, 0, 0])
   \<and> (0 :: real) \<le> 6004799503160661 / 2 ^ 53 \<and> (6004799503160661 / 2 ^ 53 :: real) < 1
   \<and> (6004799503160661 / 2 ^ 53 :: real)
       < real (sum_list (take 1 [2, 1, 0, 0])) / real (sum_list [2, 1, 0, 0])
   \<and> select_bucket [6004799503160661 / 2 ^ 53, 1, 1, 1] (6004799503160661 / 2 ^ 53) = Inr 1"
proof (intro conjI)
  show "train_buckets_scale [2, 1, 0, 0] = Inr [6004799503160661 / 2 ^ 53, 1, 1, 1]"
    by (rule scale_two_one)
  show "[6004799503160661 / 2 ^ 53, 1, 1, 1 :: real] ! 0
       \<noteq> real (sum_list (take 1 [2, 1, 0, 0])) / real (sum_list [2, 1, 0, 0])"
    by simp
  show "(0 :: real) \<le> 6004799503160661 / 2 ^ 53" by simp
  show "(6004799503160661 / 2 ^ 53 :: real) < 1" by simp
  show "(6004799503160661 / 2 ^ 53 :: real)
       < real (sum_list (take 1 [2, 1, 0, 0])) / real (sum_list [2, 1, 0, 0])"
    by simp
  show "select_bucket [6004799503160661 / 2 ^ 53, 1, 1, 1] (6004799503160661 / 2 ^ 53) = Inr 1"
    by (simp add: select_bucket_iff)
qed

text \<open>
  C10. For every occupancy vector with positive total the last cumulative scale is
  exactly 1, so for every draw \<open>u\<close> in \<open>[0, 1)\<close> the list of indices with
  \<open>scale ! i > u\<close> is not empty and the selection returns a bucket: \<^verbatim>\<open>min\<close> is never
  taken of an empty list.
\<close>

theorem train_bucket_selection_total:
  assumes "0 < sum_list cs"
  shows "\<exists>scale. train_buckets_scale cs = Inr scale \<and> scale \<noteq> [] \<and> last scale = 1
    \<and> (\<forall>u. 0 \<le> u \<and> u < 1 \<longrightarrow>
          filter (\<lambda>i. scale ! i > u) [0..<length scale] \<noteq> []
          \<and> (\<exists>i < length scale. select_bucket scale u = Inr i))"
proof -
  define S where "S = map (\<lambda>i. float_div (py_float (int (sum_list (take (Suc i) cs))))
                          (py_float (int (sum_list cs)))) [0..<length cs]"
  from assms have "cs \<noteq> []" by auto
  then have ne: "S \<noteq> []" by (simp add: S_def)
  have last: "last S = 1" unfolding S_def by (rule scale_last [OF assms])
  have tot: "filter (\<lambda>i. S ! i > u) [0..<length S] \<noteq> [] \<and> (\<exists>i < length S. select_bucket S u = Inr i)"
    if u: "0 \<le> u \<and> u < 1" for u
  proof -
    have top: "length S - 1 < length S" "u < S ! (length S - 1)"
      using ne last u by (simp_all add: last_conv_nth)
    then have "length S - 1 \<in> set (filter (\<lambda>i. S ! i > u) [0..<length S])" by simp
    then have f: "filter (\<lambda>i. S ! i > u) [0..<length S] \<noteq> []" by (metis empty_iff empty_set)
    from top have "\<not> (\<forall>i < length S. S ! i \<le> u)" by (metis not_less)
    then have "\<not> (\<exists>e. select_bucket S u = Inl e)"
      by (simp only: select_bucket_error_iff not_False_eq_True)
    then obtain i where "select_bucket S u = Inr i" by (cases "select_bucket S u") auto
    with f show ?thesis using select_bucket_iff [of S u i] by auto
  qed
  have "train_buckets_scale cs = Inr S"
    using train_buckets_scale_ok [OF assms] by (simp add: S_def)
  with ne last tot show ?thesis by (intro exI [of _ S]) simp
qed

theorem train_bucket_selection_total_witness:
  "0 < sum_list [3, 0, 1 :: nat]
   \<and> train_buckets_scale [3, 0, 1] = Inr [3 / 4, 3 / 4, 1]
   \<and> last [3 / 4, 3 / 4, 1 :: real] = 1
   \<and> filter (\<lambda>i. [3 / 4, 3 / 4, 1 :: real] ! i > 9 / 10) [0..<length [3 / 4, 3 / 4, 1 :: real]] \<noteq> []
   \<and> (\<exists>i < 3. select_bucket [3 / 4, 3 / 4, 1] (9 / 10) = Inr i)"
proof -
  have pos: "0 < sum_list [3, 0, 1 :: nat]" by simp
  have sc: "train_buckets_scale [3, 0, 1] = Inr [3 / 4, 3 / 4, 1]"
    by (simp add: train_buckets_scale_def upt_rec float_div_def py_float_exact
        rd_three_quarters)
  from train_bucket_selection_total [OF pos] obtain scale where
    s: "train_buckets_scale [3, 0, 1] = Inr scale"
    and tot': "\<forall>u. 0 \<le> u \<and> u < 1 \<longrightarrow>
          filter (\<lambda>i. scale ! i > u) [0..<length scale] \<noteq> []
          \<and> (\<exists>i < length scale. select_bucket scale u = Inr i)"
    by blast
  from s sc have eq: "scale = [3 / 4, 3 / 4, 1]" by simp
  note tot = tot' [unfolded eq]
  from tot [rule_format, of "9 / 10"]
  have "filter (\<lambda>i. [3 / 4, 3 / 4, 1 :: real] ! i > 9 / 10) [0..<length [3 / 4, 3 / 4, 1 :: real]] \<noteq> []
     \<and> (\<exists>i < 3. select_bucket [3 / 4, 3 / 4, 1] (9 / 10) = Inr i)"
    by (simp add: numeral_3_eq_3)
  then show ?thesis using pos sc by simp
qed

section \<open>Perplexity, checkpoint event and evaluation loop: proofs\<close>

lemma exp_300_le_DBL_MAX: "exp (300 :: real) \<le> DBL_MAX"
proof -
  have "exp (300 :: real) = exp (of_nat 300 * 1)" by simp
  also have "\<dots> = exp 1 ^ 300" by (rule exp_of_nat_mult)
  also have "\<dots> \<le> (4 :: real) ^ 300"
    using exp_le by (intro power_mono) simp_all
  also have "\<dots> = (2 :: real) ^ 600"
  proof -
    have "(4 :: real) = 2 ^ 2" by simp
    then have "(4 :: real) ^ 300 = (2 ^ 2) ^ 300" by simp
    also have "\<dots> = (2 :: real) ^ (2 * 300)" by (rule power_mult [symmetric])
    finally show ?thesis by simp
  qed
  also have "\<dots> \<le> (2 :: real) ^ 1023" by (intro power_increasing) simp_all
  also have "\<dots> \<le> DBL_MAX"
  proof -
    have "(1 :: real) \<le> 2 - 1 / 2 ^ 52" by simp
    then have "1 * (2 :: real) ^ 1023 \<le> (2 - 1 / 2 ^ 52) * 2 ^ 1023"
      by (intro mult_right_mono) simp_all
    then show ?thesis by (simp only: DBL_MAX_def mult_1)
  qed
  finally show ?thesis .
qed

lemma math_exp_below_300: "x < 300 \<Longrightarrow> math_exp x = Inr (exp x)"
proof -
  assume "x < 300"
  then have "exp x \<le> exp (300 :: real)" by simp
  with exp_300_le_DBL_MAX have "\<not> exp x > DBL_MAX" by linarith
  then show ?thesis by (simp add: math_exp_def)
qed

lemma perplexity_eq: "perplexity l = Inr (if l < 300 then Finite (exp l) else PosInf)"
  by (simp add: perplexity_def math_exp_below_300)

lemma py_max_nonempty: "xs \<noteq> [] \<Longrightarrow> py_max xs = Inr (Max (set xs))"
  by (cases xs) (simp_all add: py_max_def Max.set_eq_fold [symmetric])

lemma last3_three:
  "3 \<le> length pl \<Longrightarrow>
   last3 pl = [pl ! (length pl - 3), pl ! (length pl - 2), pl ! (length pl - 1)]"
proof -
  assume len: "3 \<le> length pl"
  then obtain n where n: "length pl = n + 3" by (metis add.commute le_Suc_ex)
  have "drop n pl = [pl ! n, pl ! (n + 1), pl ! (n + 2)]"
    using n by (auto simp: list_eq_iff_nth_eq numeral_3_eq_3 less_Suc_eq)
  with n show ?thesis by (simp add: last3_def numeral_3_eq_3)
qed

lemma no_improvement_eq:
  "no_improvement pl l =
     Inr (3 \<le> length pl
          \<and> max (pl ! (length pl - 3)) (max (pl ! (length pl - 2)) (pl ! (length pl - 1))) < l)"
proof (cases "3 \<le> length pl")
  case True
  then have gt: "2 < length pl" by simp
  have "py_max (last3 pl)
      = Inr (max (pl ! (length pl - 3)) (max (pl ! (length pl - 2)) (pl ! (length pl - 1))))"
    by (simp add: last3_three [OF True] py_max_nonempty max.commute max.left_commute)
  with True gt show ?thesis by (simp add: no_improvement_def)
next
  case False
  then have "\<not> 2 < length pl" by simp
  with False show ?thesis by (simp add: no_improvement_def)
qed

lemma then_do_done: "then_do (done_events es) b = (es @ fst b, snd b)"
  by (simp add: then_do_def done_events_def)

lemma then_do_raise: "then_do (raise_error e) b = raise_error e"
  by (simp add: then_do_def raise_error_def)

lemma fst_then_do: "fst (then_do a b) = (if snd a = None then fst a @ fst b else fst a)"
  by (cases "snd a") (simp_all add: then_do_def)


lemma set_fst_then_do: "set (fst (then_do a b)) \<subseteq> set (fst a) \<union> set (fst b)"
  by (auto simp: fst_then_do)

lemma print_text_events: "set (fst (print_text w t)) \<subseteq> range PrintText"
  by (cases "those (map w (items t))") (simp_all add: print_text_def raise_error_def done_events_def)

lemma show_example_events:
  "set (fst (show_example E w src tgt outs k)) \<subseteq> insert PrintHeader (range PrintText)"
proof -
  have pt: "\<And>t x. x \<in> set (fst (print_text w t)) \<Longrightarrow> x \<in> range PrintText"
    using print_text_events by blast
  show ?thesis
    unfolding show_example_def
    by (auto simp: fst_then_do raise_error_def done_events_def
        split: sum.splits if_splits dest!: pt)
qed

lemma show_examples_events:
  "set (fst (show_examples E w src tgt outs ks)) \<subseteq> insert PrintHeader (range PrintText)"
proof (induction ks)
  case Nil
  show ?case by (simp add: done_events_def)
next
  case (Cons k ks)
  from set_fst_then_do show_example_events Cons.IH show ?case
    by (simp only: show_examples.simps) blast
qed

lemma eval_bucket_empty:
  "cfg_dev_set cfg b = [] \<Longrightarrow> eval_bucket cfg env b = ([PrintEmptyBucket (int b)], None)"
  by (simp add: eval_bucket_def done_events_def)

lemma eval_bucket_events:
  "set (fst (eval_bucket cfg env b)) \<subseteq>
     (if cfg_dev_set cfg b = [] then {PrintEmptyBucket (int b)}
      else {GetDevBatch (int b), ModelStep (int b) True} \<union> range (PrintEvalPerplexity (int b))
           \<union> insert PrintHeader (range PrintText))"
proof (cases "cfg_dev_set cfg b = []")
  case True
  then show ?thesis by (simp add: eval_bucket_empty)
next
  case False
  have se: "\<And>E w src tgt outs ks x. x \<in> set (fst (show_examples E w src tgt outs ks))
      \<Longrightarrow> x = PrintHeader \<or> x \<in> range PrintText"
    using show_examples_events by blast
  from False show ?thesis
    unfolding eval_bucket_def
    by (auto simp: then_do_done perplexity_eq raise_error_def split: sum.splits dest!: se)
qed


lemma eval_loop_events:
  "e \<in> set (fst (eval_loop cfg env bs)) \<Longrightarrow> \<exists>b \<in> set bs. e \<in> set (fst (eval_bucket cfg env b))"
proof (induction bs)
  case Nil
  then show ?case by (simp add: done_events_def)
next
  case (Cons b bs)
  from Cons.prems set_fst_then_do [of "eval_bucket cfg env b" "eval_loop cfg env bs"]
  have "e \<in> set (fst (eval_bucket cfg env b)) \<or> e \<in> set (fst (eval_loop cfg env bs))"
    by auto
  with Cons.IH show ?case by auto
qed




lemma run_evals_events:
  "e \<in> set (fst (run_evals cfg env)) \<Longrightarrow>
   e = StdoutFlush \<or> (\<exists>b. e \<in> set (fst (eval_bucket cfg env b)))"
  unfolding run_evals_def
  by (auto simp: fst_then_do done_events_def split: if_splits dest: eval_loop_events)

lemma run_evals_no_decay: "LearningRateDecayOp \<notin> set (fst (run_evals cfg env))"
proof
  assume "LearningRateDecayOp \<in> set (fst (run_evals cfg env))"
  from run_evals_events [OF this] obtain b
    where "LearningRateDecayOp \<in> set (fst (eval_bucket cfg env b))" by auto
  with eval_bucket_events [of cfg env b] show False by (auto split: if_splits)
qed

lemma checkpoint_eq:
  "checkpoint cfg env s =
     (s\<lparr>step_time := 0, loss := 0,
        previous_losses := previous_losses s @ [loss s],
        trace := trace s
          @ [PrintGlobalStep (step_time s) (if loss s < 300 then Finite (exp (loss s)) else PosInf)]
          @ (if 3 \<le> length (previous_losses s)
                \<and> max (previous_losses s ! (length (previous_losses s) - 3))
                      (max (previous_losses s ! (length (previous_losses s) - 2))
                           (previous_losses s ! (length (previous_losses s) - 1))) < loss s
             then [LearningRateDecayOp] else [])
          @ [SaverSave] @ fst (run_evals cfg env)\<rparr>,
      snd (run_evals cfg env))"
  by (simp add: checkpoint_def perplexity_eq no_improvement_eq emit_def Let_def)

lemma eval_bucket_nonempty_head:
  "cfg_dev_set cfg b \<noteq> [] \<Longrightarrow>
   \<exists>rest. fst (eval_bucket cfg env b) =
     GetDevBatch (int b) # ModelStep (int b) True
       # PrintEvalPerplexity (int b)
           (if eval_loss (dev env b) < 300 then Finite (exp (eval_loss (dev env b))) else PosInf)
       # rest"
  unfolding eval_bucket_def
  by (auto simp: then_do_done perplexity_eq raise_error_def split: sum.splits)

text \<open>
  C4. The perplexity of a loss is \<open>exp loss\<close> when the loss is below 300 and positive
  infinity from 300 on (at 300 too); \<^verbatim>\<open>math.exp\<close> never raises \<^verbatim>\<open>OverflowError\<close> there,
  since \<open>exp 300\<close> is below the largest double. The statistics line of a checkpoint
  event and the evaluation line of a non-empty bucket both print this value.
\<close>

theorem perplexity_guarded:
  "(l < 300 \<longrightarrow> perplexity l = Inr (Finite (exp l)))
   \<and> (300 \<le> l \<longrightarrow> perplexity l = Inr PosInf)
   \<and> perplexity 300 = Inr PosInf
   \<and> (\<forall>e. perplexity l \<noteq> Inl e)
   \<and> (\<exists>ppx. perplexity (loss s) = Inr ppx
         \<and> PrintGlobalStep (step_time s) ppx \<in> set (trace (fst (checkpoint cfg env s))))
   \<and> (cfg_dev_set cfg b \<noteq> [] \<longrightarrow>
         (\<exists>ppx. perplexity (eval_loss (dev env b)) = Inr ppx
            \<and> PrintEvalPerplexity (int b) ppx \<in> set (fst (eval_bucket cfg env b))))"
proof (intro conjI impI allI)
  show "perplexity l = Inr (Finite (exp l))" if "l < 300"
    using that by (simp add: perplexity_eq)
  show "perplexity l = Inr PosInf" if "300 \<le> l"
    using that by (simp add: perplexity_eq)
  show "perplexity 300 = Inr PosInf" by (simp add: perplexity_eq)
  show "perplexity l \<noteq> Inl e" for e by (simp add: perplexity_eq)
  show "\<exists>ppx. perplexity (loss s) = Inr ppx
         \<and> PrintGlobalStep (step_time s) ppx \<in> set (trace (fst (checkpoint cfg env s)))"
    by (simp add: perplexity_eq checkpoint_eq)
  show "\<exists>ppx. perplexity (eval_loss (dev env b)) = Inr ppx
            \<and> PrintEvalPerplexity (int b) ppx \<in> set (fst (eval_bucket cfg env b))"
    if "cfg_dev_set cfg b \<noteq> []"
    using eval_bucket_nonempty_head [OF that, of env] by (auto simp: perplexity_eq)
qed

theorem perplexity_guarded_witness:
  "(0 :: real) < 300 \<and> perplexity 0 = Inr (Finite 1)
   \<and> (300 :: real) \<le> 1000 \<and> perplexity 1000 = Inr PosInf
   \<and> cfg_dev_set example_config 1 \<noteq> []
   \<and> PrintEvalPerplexity 1 (Finite 1)
        \<in> set (fst (eval_bucket example_config (example_env quiet_logits 0) 1))"
proof -
  have ne: "cfg_dev_set example_config 1 \<noteq> []" by (simp add: example_config_def)
  have l0: "eval_loss (dev (example_env quiet_logits 0) 1) = 0" by (simp add: example_env_def)
  from perplexity_guarded [where l = 0 and cfg = example_config and env = "example_env quiet_logits 0" and b = 1]
  have a: "perplexity 0 = Inr (Finite 1)" by simp
  from perplexity_guarded [where l = 1000 and cfg = example_config and env = "example_env quiet_logits 0" and b = 1]
  have b: "perplexity 1000 = Inr PosInf" by simp
  from perplexity_guarded [where l = 0 and cfg = example_config and env = "example_env quiet_logits 0" and b = 1] ne
  have "\<exists>ppx. perplexity (eval_loss (dev (example_env quiet_logits 0) 1)) = Inr ppx
            \<and> PrintEvalPerplexity (int 1) ppx
                 \<in> set (fst (eval_bucket example_config (example_env quiet_logits 0) 1))"
    by blast
  with a l0 have c: "PrintEvalPerplexity 1 (Finite 1)
        \<in> set (fst (eval_bucket example_config (example_env quiet_logits 0) 1))"
    by auto
  from a b c ne show ?thesis by simp
qed

section \<open>Learning-rate decay and empty held-out buckets: proofs\<close>

lemma count_list_append: "count_list (xs @ ys) x = count_list xs x + count_list ys x"
  by (induction xs) simp_all

lemma count_list_absent: "x \<notin> set xs \<Longrightarrow> count_list xs x = 0"
  by (induction xs) auto

text \<open>
  C2. At a checkpoint event the decay operation runs exactly once when at least three
  losses have been recorded before and the current loss is strictly above the maximum of
  the last three of them, and not at all otherwise; it runs before the checkpoint is
  saved, and nowhere in the evaluation that follows. The current loss is appended to the
  history by the event, after the test: the test reads the history as it was before.
\<close>

theorem learning_rate_decay_rule:
  "previous_losses (fst (checkpoint cfg env s)) = previous_losses s @ [loss s]
   \<and> count_list (trace (fst (checkpoint cfg env s))) LearningRateDecayOp
       = count_list (trace s) LearningRateDecayOp
         + (if 3 \<le> length (previous_losses s)
               \<and> max (previous_losses s ! (length (previous_losses s) - 3))
                     (max (previous_losses s ! (length (previous_losses s) - 2))
                          (previous_losses s ! (length (previous_losses s) - 1))) < loss s
            then 1 else 0)
   \<and> (\<exists>ppx evs. trace (fst (checkpoint cfg env s))
         = trace s @ [PrintGlobalStep (step_time s) ppx]
           @ (if 3 \<le> length (previous_losses s)
                 \<and> max (previous_losses s ! (length (previous_losses s) - 3))
                       (max (previous_losses s ! (length (previous_losses s) - 2))
                            (previous_losses s ! (length (previous_losses s) - 1))) < loss s
              then [LearningRateDecayOp] else [])
           @ SaverSave # evs
         \<and> LearningRateDecayOp \<notin> set evs)"
proof (intro conjI)
  show "previous_losses (fst (checkpoint cfg env s)) = previous_losses s @ [loss s]"
    by (simp add: checkpoint_eq)
  have none: "count_list (fst (run_evals cfg env)) LearningRateDecayOp = 0"
    by (rule count_list_absent [OF run_evals_no_decay])
  show "count_list (trace (fst (checkpoint cfg env s))) LearningRateDecayOp
       = count_list (trace s) LearningRateDecayOp
         + (if 3 \<le> length (previous_losses s)
               \<and> max (previous_losses s ! (length (previous_losses s) - 3))
                     (max (previous_losses s ! (length (previous_losses s) - 2))
                          (previous_losses s ! (length (previous_losses s) - 1))) < loss s
            then 1 else 0)"
    by (simp add: checkpoint_eq count_list_append none)
  show "\<exists>ppx evs. trace (fst (checkpoint cfg env s))
         = trace s @ [PrintGlobalStep (step_time s) ppx]
           @ (if 3 \<le> length (previous_losses s)
                 \<and> max (previous_losses s ! (length (previous_losses s) - 3))
                       (max (previous_losses s ! (length (previous_losses s) - 2))
                            (previous_losses s ! (length (previous_losses s) - 1))) < loss s
              then [LearningRateDecayOp] else [])
           @ SaverSave # evs
         \<and> LearningRateDecayOp \<notin> set evs"
    using run_evals_no_decay [of cfg env]
    by (intro exI [of _ "if loss s < 300 then Finite (exp (loss s)) else PosInf"]
              exI [of _ "fst (run_evals cfg env)"])
       (simp add: checkpoint_eq)
qed

theorem learning_rate_decay_rule_witness:
  "count_list (trace (fst (checkpoint example_config (example_env quiet_logits 0)
       (example_state [1, 9 / 10, 95 / 100] (12 / 10))))) LearningRateDecayOp = 1
   \<and> count_list (trace (fst (checkpoint example_config (example_env quiet_logits 0)
       (example_state [1, 9 / 10, 95 / 100] (5 / 10))))) LearningRateDecayOp = 0
   \<and> count_list (trace (fst (checkpoint example_config (example_env quiet_logits 0)
       (example_state [1, 9 / 10] 7)))) LearningRateDecayOp = 0
   \<and> previous_losses (fst (checkpoint example_config (example_env quiet_logits 0)
       (example_state [1, 9 / 10, 95 / 100] (12 / 10)))) = [1, 9 / 10, 95 / 100, 12 / 10]"
proof -
  have a: "count_list (trace (fst (checkpoint example_config (example_env quiet_logits 0)
       (example_state [1, 9 / 10, 95 / 100] (12 / 10))))) LearningRateDecayOp = 1"
    and d: "previous_losses (fst (checkpoint example_config (example_env quiet_logits 0)
       (example_state [1, 9 / 10, 95 / 100] (12 / 10)))) = [1, 9 / 10, 95 / 100, 12 / 10]"
    using learning_rate_decay_rule [of example_config "example_env quiet_logits 0"
        "example_state [1, 9 / 10, 95 / 100] (12 / 10)"]
    by (simp_all add: example_state_def)
  have b: "count_list (trace (fst (checkpoint example_config (example_env quiet_logits 0)
       (example_state [1, 9 / 10, 95 / 100] (5 / 10))))) LearningRateDecayOp = 0"
    using learning_rate_decay_rule [of example_config "example_env quiet_logits 0"
        "example_state [1, 9 / 10, 95 / 100] (5 / 10)"]
    by (simp add: example_state_def)
  have c: "count_list (trace (fst (checkpoint example_config (example_env quiet_logits 0)
       (example_state [1, 9 / 10] 7)))) LearningRateDecayOp = 0"
    using learning_rate_decay_rule [of example_config "example_env quiet_logits 0"
        "example_state [1, 9 / 10] 7"]
    by (simp add: example_state_def)
  from a b c d show ?thesis by blast
qed


lemma upt5: "[0..<5] = [0, 1, 2, 3, 4]"
  by (simp add: upt_rec)





section \<open>End-of-sequence truncation and greedy decoding: proofs\<close>

lemma list_index_takeWhile:
  "x \<in> set xs \<Longrightarrow> list_index xs x = Inr (length (takeWhile (\<lambda>t. t \<noteq> x) xs))"
  by (induction xs) auto

lemma cut_at_eos_list:
  "cut_at_eos E (PyList xs) = Inr (PyList (takeWhile (\<lambda>t. t \<noteq> E) xs))"
proof (cases "E \<in> set xs")
  case True
  have "take (length (takeWhile (\<lambda>t. t \<noteq> E) xs)) xs = takeWhile (\<lambda>t. t \<noteq> E) xs"
    by (rule takeWhile_eq_take [symmetric])
  with True show ?thesis by (simp add: cut_at_eos_def list_index_takeWhile)
next
  case False
  then have tw: "takeWhile (\<lambda>t. t \<noteq> E) xs = xs" by (auto simp: takeWhile_eq_all_conv)
  from False have "cut_at_eos E (PyList xs) = Inr (PyList xs)" by (simp add: cut_at_eos_def)
  then show ?thesis by (simp only: tw)
qed

lemma cut_at_eos_ndarray:
  "cut_at_eos E (NdArray xs) = (if E \<in> set xs then Inl AttributeError else Inr (NdArray xs))"
  by (simp add: cut_at_eos_def)

lemma eval_outputs_eos: "eval_outputs eos_logits = Inr [[5, 2, 4]]"
  by (simp add: eval_outputs_def eos_logits_def np_argmax_def)

lemma show_example_eos:
  "show_example 2 example_i2w [[4, 2]] [[5, 2]] [[5, 2, 4]] 0
     = ([PrintHeader, PrintText ''a''], Some AttributeError)"
  by (simp add: show_example_def py_nth_def cut_at_eos_list cut_at_eos_ndarray print_text_def
      example_i2w_def done_events_def raise_error_def then_do_def)

text \<open>
  C5. The reporter truncates each of the three sequences at the first end-of-sequence
  marker. For the original and the target text, which are lists, \<open>cut_at_eos_list\<close> shows
  it. The generated text is a row of a numpy array, which has no method \<^verbatim>\<open>index\<close>: when
  the greedy output holds the marker (here the tokens 5, 2, 4 with marker 2) the
  evaluation of the bucket prints the original text and then ends in
  \<^verbatim>\<open>AttributeError\<close>; nothing of the generated text is reported.
\<close>

theorem generated_output_with_eos_raises:
  "eval_bucket example_config (example_env eos_logits 0) 1 =
     ([GetDevBatch 1, ModelStep 1 True, PrintEvalPerplexity 1 (Finite 1),
       PrintHeader, PrintText ''a''], Some AttributeError)"
  by (simp add: eval_bucket_def example_config_def example_env_def eval_outputs_eos
      perplexity_eq then_do_done show_example_num_def upt5
      show_example_eos then_do_def done_events_def)

lemma argmax_from_spec:
  assumes "length pre = i" "b < i" "pre ! b = v"
    and "\<forall>j < i. pre ! j \<le> v" and "\<forall>j < b. pre ! j < v"
  shows "argmax_from b v i ys < i + length ys
    \<and> (\<forall>j < i + length ys. (pre @ ys) ! j \<le> (pre @ ys) ! argmax_from b v i ys)
    \<and> (\<forall>j < argmax_from b v i ys. (pre @ ys) ! j < (pre @ ys) ! argmax_from b v i ys)"
  using assms
proof (induction ys arbitrary: pre i b v)
  case Nil
  then show ?case by simp
next
  case (Cons y ys)
  let ?pre = "pre @ [y]"
  have app: "pre @ y # ys = ?pre @ ys" by simp
  show ?case
  proof (cases "y > v")
    case True
    have "argmax_from i y (Suc i) ys < Suc i + length ys
      \<and> (\<forall>j < Suc i + length ys. (?pre @ ys) ! j \<le> (?pre @ ys) ! argmax_from i y (Suc i) ys)
      \<and> (\<forall>j < argmax_from i y (Suc i) ys. (?pre @ ys) ! j < (?pre @ ys) ! argmax_from i y (Suc i) ys)"
    proof (rule Cons.IH)
      show "length ?pre = Suc i" using Cons.prems(1) by simp
      show "i < Suc i" by simp
      show "?pre ! i = y" using Cons.prems(1) by (auto simp: nth_append)
      show "\<forall>j < Suc i. ?pre ! j \<le> y"
        using Cons.prems(1,4) True by (auto simp: nth_append less_Suc_eq intro: order_trans less_imp_le)
      show "\<forall>j < i. ?pre ! j < y"
        using Cons.prems(1,4) True by (auto simp: nth_append intro: le_less_trans)
    qed
    with True show ?thesis by (simp only: app argmax_from.simps if_True) simp
  next
    case False
    have "argmax_from b v (Suc i) ys < Suc i + length ys
      \<and> (\<forall>j < Suc i + length ys. (?pre @ ys) ! j \<le> (?pre @ ys) ! argmax_from b v (Suc i) ys)
      \<and> (\<forall>j < argmax_from b v (Suc i) ys. (?pre @ ys) ! j < (?pre @ ys) ! argmax_from b v (Suc i) ys)"
    proof (rule Cons.IH)
      show "length ?pre = Suc i" using Cons.prems(1) by simp
      show "b < Suc i" using Cons.prems(2) by simp
      show "?pre ! b = v" using Cons.prems(1,2,3) by (simp add: nth_append)
      show "\<forall>j < Suc i. ?pre ! j \<le> v"
        using Cons.prems(1,4) False by (auto simp: nth_append less_Suc_eq)
      show "\<forall>j < b. ?pre ! j < v"
        using Cons.prems(1,2,5) by (auto simp: nth_append)
    qed
    with False show ?thesis by (simp only: app argmax_from.simps if_False) simp
  qed
qed

lemma np_argmax_spec:
  assumes "xs \<noteq> []"
  shows "\<exists>k. np_argmax xs = Inr k \<and> k < length xs
     \<and> (\<forall>j < length xs. xs ! j \<le> xs ! k) \<and> (\<forall>j < k. xs ! j < xs ! k)"
proof -
  from assms obtain x rest where xs: "xs = x # rest" by (cases xs) auto
  have "argmax_from 0 x 1 rest < 1 + length rest
    \<and> (\<forall>j < 1 + length rest. ([x] @ rest) ! j \<le> ([x] @ rest) ! argmax_from 0 x 1 rest)
    \<and> (\<forall>j < argmax_from 0 x 1 rest. ([x] @ rest) ! j < ([x] @ rest) ! argmax_from 0 x 1 rest)"
    by (rule argmax_from_spec) simp_all
  then show ?thesis by (simp add: xs np_argmax_def)
qed

lemma int_argmax_single:
  assumes "row \<noteq> []"
  shows "\<exists>k < length row. int_argmax [row] = Inr (int k)
     \<and> (\<forall>j < length row. row ! j \<le> row ! k) \<and> (\<forall>j < k. row ! j < row ! k)"
proof -
  from np_argmax_spec [OF assms] obtain k where k: "np_argmax row = Inr k" "k < length row"
    "\<forall>j < length row. row ! j \<le> row ! k" "\<forall>j < k. row ! j < row ! k" by blast
  from k(1) have "int_argmax [row] = Inr (int k)" by (simp add: int_argmax_def)
  with k show ?thesis by blast
qed

lemma decode_outputs_spec:
  assumes "\<forall>logit \<in> set logits. \<exists>row. logit = [row] \<and> row \<noteq> []"
  shows "\<exists>outputs. decode_outputs logits = Inr outputs \<and> length outputs = length logits
     \<and> (\<forall>t < length logits. \<exists>k < length (hd (logits ! t)). outputs ! t = int k
            \<and> (\<forall>j < length (hd (logits ! t)). hd (logits ! t) ! j \<le> hd (logits ! t) ! k)
            \<and> (\<forall>j < k. hd (logits ! t) ! j < hd (logits ! t) ! k))"
  using assms
proof (induction logits)
  case Nil
  show ?case by (simp add: decode_outputs_def)
next
  case (Cons logit logits)
  from Cons.prems obtain row where row: "logit = [row]" "row \<noteq> []" by auto
  from int_argmax_single [OF row(2)] obtain k where k: "k < length row"
    "int_argmax [row] = Inr (int k)"
    "\<forall>j < length row. row ! j \<le> row ! k" "\<forall>j < k. row ! j < row ! k" by blast
  from Cons.prems have "\<forall>logit \<in> set logits. \<exists>row. logit = [row] \<and> row \<noteq> []" by simp
  from Cons.IH [OF this] obtain outs where outs: "decode_outputs logits = Inr outs"
    "length outs = length logits"
    "\<forall>t < length logits. \<exists>k < length (hd (logits ! t)). outs ! t = int k
            \<and> (\<forall>j < length (hd (logits ! t)). hd (logits ! t) ! j \<le> hd (logits ! t) ! k)
            \<and> (\<forall>j < k. hd (logits ! t) ! j < hd (logits ! t) ! k)" by blast
  have d: "decode_outputs (logit # logits) = Inr (int k # outs)"
    using outs(1) k(2) row(1) by (simp add: decode_outputs_def)
  have "\<exists>k' < length (hd ((logit # logits) ! t)). (int k # outs) ! t = int k'
            \<and> (\<forall>j < length (hd ((logit # logits) ! t)).
                  hd ((logit # logits) ! t) ! j \<le> hd ((logit # logits) ! t) ! k')
            \<and> (\<forall>j < k'. hd ((logit # logits) ! t) ! j < hd ((logit # logits) ! t) ! k')"
    if "t < length (logit # logits)" for t
  proof (cases t)
    case 0
    with k row(1) show ?thesis by auto
  next
    case (Suc m)
    with that have "m < length logits" by simp
    with outs(3) Suc show ?thesis by simp
  qed
  with d outs(2) show ?case by (intro exI [of _ "int k # outs"]) simp
qed

text \<open>
  C6. For an input line whose logits have one row of scores per timestep (batch size 1,
  non-empty vocabulary), the decoded token of every timestep is the first position of
  the maximal score; the emitted line is these tokens cut before the first
  end-of-sequence marker (whole when there is none), mapped through the vocabulary and
  joined by spaces, printed after the calls into the model. A token missing from the
  vocabulary raises instead.
\<close>

theorem decode_greedy_truncated:
  assumes "\<forall>logit \<in> set logits. \<exists>row. logit = [row] \<and> row \<noteq> []"
  shows "\<exists>outputs. decode_outputs logits = Inr outputs \<and> length outputs = length logits
     \<and> (\<forall>t < length logits. \<exists>k < length (hd (logits ! t)). outputs ! t = int k
            \<and> (\<forall>j < length (hd (logits ! t)). hd (logits ! t) ! j \<le> hd (logits ! t) ! k)
            \<and> (\<forall>j < k. hd (logits ! t) ! j < hd (logits ! t) ! k))
     \<and> decode_sentence EOS_ID i2w token_ids logits =
         (case those (map i2w (takeWhile (\<lambda>t. t \<noteq> EOS_ID) outputs)) of
            Some ws \<Rightarrow>
              ((if snd (decode_bucket buckets (length token_ids)) then [LoggingWarning] else [])
               @ [GetDevBatch (fst (decode_bucket buckets (length token_ids))),
                  ModelStep (fst (decode_bucket buckets (length token_ids))) True,
                  PrintText (join_space ws)], None)
          | None \<Rightarrow>
              ((if snd (decode_bucket buckets (length token_ids)) then [LoggingWarning] else [])
               @ [GetDevBatch (fst (decode_bucket buckets (length token_ids))),
                  ModelStep (fst (decode_bucket buckets (length token_ids))) True],
               Some LookupError))"
proof -
  from decode_outputs_spec [OF assms] obtain outputs where o: "decode_outputs logits = Inr outputs"
    "length outputs = length logits"
    "\<forall>t < length logits. \<exists>k < length (hd (logits ! t)). outputs ! t = int k
            \<and> (\<forall>j < length (hd (logits ! t)). hd (logits ! t) ! j \<le> hd (logits ! t) ! k)
            \<and> (\<forall>j < k. hd (logits ! t) ! j < hd (logits ! t) ! k)" by blast
  have "decode_sentence EOS_ID i2w token_ids logits =
         (case those (map i2w (takeWhile (\<lambda>t. t \<noteq> EOS_ID) outputs)) of
            Some ws \<Rightarrow>
              ((if snd (decode_bucket buckets (length token_ids)) then [LoggingWarning] else [])
               @ [GetDevBatch (fst (decode_bucket buckets (length token_ids))),
                  ModelStep (fst (decode_bucket buckets (length token_ids))) True,
                  PrintText (join_space ws)], None)
          | None \<Rightarrow>
              ((if snd (decode_bucket buckets (length token_ids)) then [LoggingWarning] else [])
               @ [GetDevBatch (fst (decode_bucket buckets (length token_ids))),
                  ModelStep (fst (decode_bucket buckets (length token_ids))) True],
               Some LookupError))"
    by (simp add: decode_sentence_def o(1) cut_at_eos_list print_text_def then_do_def
        raise_error_def done_events_def split: prod.splits option.splits)
  with o show ?thesis by blast
qed

lemma decode_outputs_eos: "decode_outputs eos_logits = Inr [5, 2, 4]"
  by (simp add: decode_outputs_def int_argmax_def eos_logits_def np_argmax_def)

theorem decode_greedy_truncated_witness:
  "list_all (\<lambda>logit. length logit = 1 \<and> hd logit \<noteq> []) eos_logits
   \<and> decode_outputs eos_logits = Inr [5, 2, 4]
   \<and> decode_sentence 2 example_i2w [4, 4, 5] eos_logits
       = ([GetDevBatch 0, ModelStep 0 True, PrintText ''b''], None)"
proof -
  have shape: "\<forall>logit \<in> set eos_logits. \<exists>row. logit = [row] \<and> row \<noteq> []"
    by (simp add: eos_logits_def)
  have shape': "list_all (\<lambda>logit. length logit = 1 \<and> hd logit \<noteq> []) eos_logits"
    by (simp add: eos_logits_def)
  have b: "decode_bucket buckets (length [4, 4, 5 :: int]) = (0, False)"
    by (simp add: decode_bucket_def buckets_def)
  from decode_greedy_truncated [OF shape, where EOS_ID = 2 and ?i2w = example_i2w
      and token_ids = "[4, 4, 5]"]
  obtain outputs where o: "decode_outputs eos_logits = Inr outputs"
    and d: "decode_sentence 2 example_i2w [4, 4, 5] eos_logits =
         (case those (map example_i2w (takeWhile (\<lambda>t. t \<noteq> 2) outputs)) of
            Some ws \<Rightarrow>
              ((if snd (decode_bucket buckets (length [4, 4, 5 :: int])) then [LoggingWarning] else [])
               @ [GetDevBatch (fst (decode_bucket buckets (length [4, 4, 5 :: int]))),
                  ModelStep (fst (decode_bucket buckets (length [4, 4, 5 :: int]))) True,
                  PrintText (join_space ws)], None)
          | None \<Rightarrow>
              ((if snd (decode_bucket buckets (length [4, 4, 5 :: int])) then [LoggingWarning] else [])
               @ [GetDevBatch (fst (decode_bucket buckets (length [4, 4, 5 :: int]))),
                  ModelStep (fst (decode_bucket buckets (length [4, 4, 5 :: int]))) True],
               Some LookupError))"
    by blast
  from o decode_outputs_eos have eq: "outputs = [5, 2, 4]" by simp
  have "decode_sentence 2 example_i2w [4, 4, 5] eos_logits
       = ([GetDevBatch 0, ModelStep 0 True, PrintText ''b''], None)"
    unfolding d eq b by (simp add: example_i2w_def)
  with shape' decode_outputs_eos show ?thesis by simp
qed

section \<open>Loss and step-time accumulation: proofs\<close>

lemma train_iteration_plain:
  assumes "select_bucket scale (random_number_01 env) = Inr b"
    and "FLAGS_steps_per_checkpoint cfg \<noteq> 0"
    and "(current_step s + 1) mod FLAGS_steps_per_checkpoint cfg \<noteq> 0"
  shows "train_iteration cfg scale env s =
     (s\<lparr>trace := trace s @ [GetBatch (int b), ModelStep (int b) False],
        step_time := float_add (step_time s)
          (float_div (elapsed env) (py_float (FLAGS_steps_per_checkpoint cfg))),
        loss := float_add (loss s)
          (float_div (step_loss env) (py_float (FLAGS_steps_per_checkpoint cfg))),
        current_step := current_step s + 1\<rparr>, None)"
  using assms by (simp add: train_iteration_def emit_def Let_def)

lemma train_iteration_at_checkpoint:
  assumes "select_bucket scale (random_number_01 env) = Inr b"
    and "FLAGS_steps_per_checkpoint cfg \<noteq> 0"
    and "(current_step s + 1) mod FLAGS_steps_per_checkpoint cfg = 0"
  shows "train_iteration cfg scale env s =
     checkpoint cfg env
       (s\<lparr>trace := trace s @ [GetBatch (int b), ModelStep (int b) False],
          step_time := float_add (step_time s)
            (float_div (elapsed env) (py_float (FLAGS_steps_per_checkpoint cfg))),
          loss := float_add (loss s)
            (float_div (step_loss env) (py_float (FLAGS_steps_per_checkpoint cfg))),
          current_step := current_step s + 1\<rparr>)"
  using assms by (simp add: train_iteration_def emit_def Let_def)

lemma train_loop_snoc:
  "train_loop cfg scale (envs @ [env]) s =
     (case train_loop cfg scale envs s of
        (s', None) \<Rightarrow> train_iteration cfg scale env s'
      | (s', Some e) \<Rightarrow> (s', Some e))"
proof (induction envs arbitrary: s)
  case Nil
  show ?case by (simp split: prod.splits option.splits)
next
  case (Cons a envs)
  show ?case by (simp add: Cons.IH split: prod.splits option.splits)
qed

lemma accumulate_Cons:
  "accumulate n acc (v # vs) = accumulate n (float_add acc (float_div v (py_float n))) vs"
  by (simp add: accumulate_def)

lemma accumulate_snoc:
  "accumulate n acc (vs @ [v]) = float_add (accumulate n acc vs) (float_div v (py_float n))"
  by (simp add: accumulate_def)

lemma train_loop_accumulate:
  assumes n: "0 < FLAGS_steps_per_checkpoint cfg"
    and sel: "\<forall>env \<in> set envs. \<exists>b. select_bucket scale (random_number_01 env) = Inr b"
    and nocp: "\<forall>j. 0 < j \<and> j \<le> length envs \<longrightarrow>
                 (current_step s + int j) mod FLAGS_steps_per_checkpoint cfg \<noteq> 0"
  shows "\<exists>s'. train_loop cfg scale envs s = (s', None)
     \<and> loss s' = accumulate (FLAGS_steps_per_checkpoint cfg) (loss s) (map step_loss envs)
     \<and> step_time s' = accumulate (FLAGS_steps_per_checkpoint cfg) (step_time s) (map elapsed envs)
     \<and> current_step s' = current_step s + int (length envs)
     \<and> previous_losses s' = previous_losses s"
  using sel nocp
proof (induction envs arbitrary: s)
  case Nil
  show ?case by (simp add: accumulate_def)
next
  case (Cons env envs)
  let ?n = "FLAGS_steps_per_checkpoint cfg"
  from Cons.prems(1) obtain b where b: "select_bucket scale (random_number_01 env) = Inr b" by auto
  from Cons.prems(2) [rule_format, of 1] have nz: "(current_step s + 1) mod ?n \<noteq> 0" by simp
  define s1 where "s1 = s\<lparr>trace := trace s @ [GetBatch (int b), ModelStep (int b) False],
        step_time := float_add (step_time s) (float_div (elapsed env) (py_float ?n)),
        loss := float_add (loss s) (float_div (step_loss env) (py_float ?n)),
        current_step := current_step s + 1\<rparr>"
  have it: "train_iteration cfg scale env s = (s1, None)"
    using train_iteration_plain [OF b _ nz] n by (simp add: s1_def)
  have sel': "\<forall>env \<in> set envs. \<exists>b. select_bucket scale (random_number_01 env) = Inr b"
    using Cons.prems(1) by simp
  have nocp': "\<forall>j. 0 < j \<and> j \<le> length envs \<longrightarrow> (current_step s1 + int j) mod ?n \<noteq> 0"
  proof (intro allI impI)
    fix j assume "0 < j \<and> j \<le> length envs"
    then have "0 < Suc j \<and> Suc j \<le> length (env # envs)" by simp
    from Cons.prems(2) [rule_format, OF this]
    have "(current_step s + int (Suc j)) mod ?n \<noteq> 0" .
    moreover have "current_step s1 + int j = current_step s + int (Suc j)"
      by (simp add: s1_def)
    ultimately show "(current_step s1 + int j) mod ?n \<noteq> 0" by metis
  qed
  from Cons.IH [OF sel' nocp'] obtain s' where s': "train_loop cfg scale envs s1 = (s', None)"
    "loss s' = accumulate ?n (loss s1) (map step_loss envs)"
    "step_time s' = accumulate ?n (step_time s1) (map elapsed envs)"
    "current_step s' = current_step s1 + int (length envs)"
    "previous_losses s' = previous_losses s1" by blast
  have "train_loop cfg scale (env # envs) s = (s', None)" using it s'(1) by simp
  moreover have "loss s' = accumulate ?n (loss s) (map step_loss (env # envs))"
    using s'(2) by (simp add: s1_def accumulate_Cons)
  moreover have "step_time s' = accumulate ?n (step_time s) (map elapsed (env # envs))"
    using s'(3) by (simp add: s1_def accumulate_Cons)
  moreover have "current_step s' = current_step s + int (length (env # envs))"
    using s'(4) by (simp add: s1_def)
  moreover have "previous_losses s' = previous_losses s" using s'(5) by (simp add: s1_def)
  ultimately show ?case by blast
qed

lemma no_checkpoint_between:
  assumes "0 < (n :: int)" "c mod n = 0" "0 < j" "int j < n"
  shows "(c + int j) mod n \<noteq> 0"
proof -
  have "(c + int j) mod n = (c mod n + int j mod n) mod n" by (simp only: mod_add_eq)
  also have "\<dots> = int j mod n" using assms(2) by simp
  also have "\<dots> = int j" using assms(3,4) by simp
  finally show ?thesis using assms(3) by simp
qed

lemma train_loop_before_checkpoint:
  assumes n: "0 < FLAGS_steps_per_checkpoint cfg"
    and start: "current_step s mod FLAGS_steps_per_checkpoint cfg = 0"
    and short: "int (length envs) < FLAGS_steps_per_checkpoint cfg"
    and sel: "\<forall>env \<in> set envs. \<exists>b. select_bucket scale (random_number_01 env) = Inr b"
  shows "\<exists>s'. train_loop cfg scale envs s = (s', None)
     \<and> loss s' = accumulate (FLAGS_steps_per_checkpoint cfg) (loss s) (map step_loss envs)
     \<and> step_time s' = accumulate (FLAGS_steps_per_checkpoint cfg) (step_time s) (map elapsed envs)
     \<and> current_step s' = current_step s + int (length envs)
     \<and> previous_losses s' = previous_losses s"
proof (rule train_loop_accumulate [OF n sel])
  show "\<forall>j. 0 < j \<and> j \<le> length envs \<longrightarrow>
          (current_step s + int j) mod FLAGS_steps_per_checkpoint cfg \<noteq> 0"
  proof (intro allI impI)
    fix j assume j: "0 < j \<and> j \<le> length envs"
    then have pos: "0 < j" and le: "int j \<le> int (length envs)" by simp_all
    from le short have lt: "int j < FLAGS_steps_per_checkpoint cfg" by linarith
    show "(current_step s + int j) mod FLAGS_steps_per_checkpoint cfg \<noteq> 0"
      by (rule no_checkpoint_between [OF n start pos lt])
  qed
qed

lemma accumulate_exact:
  assumes n: "0 \<le> n" "n < 2 ^ 53"
    and quot: "\<forall>v \<in> set vs. round_double (v / of_int n) = v / of_int n"
    and sums: "\<forall>k \<le> length vs. round_double (sum_list (take k vs) / of_int n)
                 = sum_list (take k vs) / of_int n"
  shows "accumulate n 0 vs = sum_list vs / of_int n"
  using quot sums
proof (induction vs rule: rev_induct)
  case Nil
  show ?case by (simp add: accumulate_def)
next
  case (snoc v vs)
  have q: "\<forall>v \<in> set vs. round_double (v / of_int n) = v / of_int n" using snoc.prems(1) by simp
  have s: "\<forall>k \<le> length vs. round_double (sum_list (take k vs) / of_int n)
                 = sum_list (take k vs) / of_int n"
  proof (intro allI impI)
    fix k assume k: "k \<le> length vs"
    then have "k \<le> length (vs @ [v])" by simp
    from snoc.prems(2) [rule_format, OF this] k
    show "round_double (sum_list (take k vs) / of_int n) = sum_list (take k vs) / of_int n"
      by simp
  qed
  have ih: "accumulate n 0 vs = sum_list vs / of_int n" by (rule snoc.IH [OF q s])
  have fv: "float_div v (py_float n) = v / of_int n"
    using snoc.prems(1) by (simp add: float_div_def py_float_exact [OF n])
  have "accumulate n 0 (vs @ [v]) = round_double (sum_list vs / of_int n + v / of_int n)"
    by (simp only: accumulate_snoc ih fv float_add_def)
  also have "\<dots> = round_double (sum_list (take (length (vs @ [v])) (vs @ [v])) / of_int n)"
    by (simp add: add_divide_distrib)
  also have "\<dots> = sum_list (take (length (vs @ [v])) (vs @ [v])) / of_int n"
    by (rule snoc.prems(2) [rule_format]) simp
  finally show ?case by simp
qed

lemma train_loop_interval:
  assumes n: "0 < FLAGS_steps_per_checkpoint cfg"
    and len: "int (length envs) = FLAGS_steps_per_checkpoint cfg"
    and start: "current_step s mod FLAGS_steps_per_checkpoint cfg = 0"
    and zero: "loss s = 0" "step_time s = 0"
    and sel: "\<forall>env \<in> set envs. \<exists>b. select_bucket scale (random_number_01 env) = Inr b"
  shows "previous_losses (fst (train_loop cfg scale envs s))
         = previous_losses s
           @ [accumulate (FLAGS_steps_per_checkpoint cfg) 0 (map step_loss envs)]"
    and "PrintGlobalStep (accumulate (FLAGS_steps_per_checkpoint cfg) 0 (map elapsed envs))
           (if accumulate (FLAGS_steps_per_checkpoint cfg) 0 (map step_loss envs) < 300
            then Finite (exp (accumulate (FLAGS_steps_per_checkpoint cfg) 0 (map step_loss envs)))
            else PosInf)
         \<in> set (trace (fst (train_loop cfg scale envs s)))"
    and "loss (fst (train_loop cfg scale envs s)) = 0"
    and "step_time (fst (train_loop cfg scale envs s)) = 0"
proof -
  let ?n = "FLAGS_steps_per_checkpoint cfg"
  from n len have ne: "envs \<noteq> []" by auto
  define pre where "pre = butlast envs"
  define lst where "lst = last envs"
  have split: "envs = pre @ [lst]" using ne by (simp add: pre_def lst_def)
  have short: "int (length pre) < ?n" using len split by simp
  have sel_pre: "\<forall>env \<in> set pre. \<exists>b. select_bucket scale (random_number_01 env) = Inr b"
    using sel split by simp
  from sel split obtain b where b: "select_bucket scale (random_number_01 lst) = Inr b" by auto
  from train_loop_before_checkpoint [OF n start short sel_pre] obtain s1 where
    s1: "train_loop cfg scale pre s = (s1, None)"
      "loss s1 = accumulate ?n (loss s) (map step_loss pre)"
      "step_time s1 = accumulate ?n (step_time s) (map elapsed pre)"
      "current_step s1 = current_step s + int (length pre)"
      "previous_losses s1 = previous_losses s" by blast
  have "current_step s1 + 1 = current_step s + ?n" using s1(4) len split by simp
  then have "(current_step s1 + 1) mod ?n = (current_step s mod ?n + ?n mod ?n) mod ?n"
    by (simp only: mod_add_eq)
  then have cp: "(current_step s1 + 1) mod ?n = 0" using start by simp
  define s2 where "s2 = s1\<lparr>trace := trace s1 @ [GetBatch (int b), ModelStep (int b) False],
          step_time := float_add (step_time s1) (float_div (elapsed lst) (py_float ?n)),
          loss := float_add (loss s1) (float_div (step_loss lst) (py_float ?n)),
          current_step := current_step s1 + 1\<rparr>"
  have nz: "?n \<noteq> 0" using n by simp
  have "train_loop cfg scale envs s = train_iteration cfg scale lst s1"
    by (simp only: split train_loop_snoc s1(1)) simp
  also have "\<dots> = checkpoint cfg lst s2"
    unfolding s2_def by (rule train_iteration_at_checkpoint [OF b nz cp])
  finally have run: "train_loop cfg scale envs s = checkpoint cfg lst s2" .
  have l2: "loss s2 = accumulate ?n 0 (map step_loss envs)"
    using s1(2) zero(1) by (simp add: s2_def split accumulate_snoc)
  have t2: "step_time s2 = accumulate ?n 0 (map elapsed envs)"
    using s1(3) zero(2) by (simp add: s2_def split accumulate_snoc)
  have p2: "previous_losses s2 = previous_losses s" using s1(5) by (simp add: s2_def)
  show "previous_losses (fst (train_loop cfg scale envs s))
         = previous_losses s @ [accumulate ?n 0 (map step_loss envs)]"
    by (simp add: run checkpoint_eq l2 p2)
  have "PrintGlobalStep (step_time s2) (if loss s2 < 300 then Finite (exp (loss s2)) else PosInf)
      \<in> set (trace (fst (checkpoint cfg lst s2)))"
    by (simp add: checkpoint_eq)
  then show "PrintGlobalStep (accumulate ?n 0 (map elapsed envs))
           (if accumulate ?n 0 (map step_loss envs) < 300
            then Finite (exp (accumulate ?n 0 (map step_loss envs)))
            else PosInf)
         \<in> set (trace (fst (train_loop cfg scale envs s)))"
    unfolding run t2 l2 .
  show "loss (fst (train_loop cfg scale envs s)) = 0"
    "step_time (fst (train_loop cfg scale envs s)) = 0"
    by (simp_all add: run checkpoint_eq)
qed

text \<open>
  C7, as amended. Starting right after a checkpoint event (both accumulators zero, the
  step counter a multiple of the interval), every step adds its loss and its duration
  divided by the interval, each quotient and each sum rounded to the nearest double:
  after \<open>k\<close> steps, \<open>k\<close> below the interval, the accumulators hold
  \<open>accumulate interval 0\<close> of the first \<open>k\<close> step losses and durations. The step that
  completes the interval is a checkpoint event: the loss it reports and records and the
  step-time it prints are \<open>accumulate interval 0\<close> of the losses and durations of the
  interval. The recorded loss is the arithmetic mean of the step losses whenever every
  quotient and every partial sum of quotients is a double (the interval below
  \<open>2 ^ 53\<close>). Afterwards both accumulators are exactly zero, as after every checkpoint
  event.
\<close>

theorem accumulators_rounded_and_reset:
  assumes n: "0 < FLAGS_steps_per_checkpoint cfg"
    and len: "int (length envs) = FLAGS_steps_per_checkpoint cfg"
    and start: "current_step s mod FLAGS_steps_per_checkpoint cfg = 0"
    and zero: "loss s = 0" "step_time s = 0"
    and sel: "\<forall>env \<in> set envs. \<exists>b. select_bucket scale (random_number_01 env) = Inr b"
  shows "(\<forall>k < length envs.
            loss (fst (train_loop cfg scale (take k envs) s))
              = accumulate (FLAGS_steps_per_checkpoint cfg) 0 (map step_loss (take k envs))
          \<and> step_time (fst (train_loop cfg scale (take k envs) s))
              = accumulate (FLAGS_steps_per_checkpoint cfg) 0 (map elapsed (take k envs))
          \<and> snd (train_loop cfg scale (take k envs) s) = None)
     \<and> previous_losses (fst (train_loop cfg scale envs s))
         = previous_losses s
           @ [accumulate (FLAGS_steps_per_checkpoint cfg) 0 (map step_loss envs)]
     \<and> (\<exists>ppx. PrintGlobalStep
                 (accumulate (FLAGS_steps_per_checkpoint cfg) 0 (map elapsed envs)) ppx
               \<in> set (trace (fst (train_loop cfg scale envs s))))
     \<and> (FLAGS_steps_per_checkpoint cfg < 2 ^ 53
          \<and> (\<forall>v \<in> set (map step_loss envs).
                round_double (v / real_of_int (FLAGS_steps_per_checkpoint cfg))
                  = v / real_of_int (FLAGS_steps_per_checkpoint cfg))
          \<and> (\<forall>k \<le> length (map step_loss envs).
                round_double (sum_list (take k (map step_loss envs))
                                / real_of_int (FLAGS_steps_per_checkpoint cfg))
                  = sum_list (take k (map step_loss envs))
                      / real_of_int (FLAGS_steps_per_checkpoint cfg))
          \<longrightarrow> previous_losses (fst (train_loop cfg scale envs s))
                = previous_losses s
                  @ [sum_list (map step_loss envs) / real_of_int (FLAGS_steps_per_checkpoint cfg)])
     \<and> loss (fst (train_loop cfg scale envs s)) = 0
     \<and> step_time (fst (train_loop cfg scale envs s)) = 0
     \<and> loss (fst (checkpoint cfg env0 s0)) = 0
     \<and> step_time (fst (checkpoint cfg env0 s0)) = 0"
proof -
  let ?n = "FLAGS_steps_per_checkpoint cfg"
  have part: "loss (fst (train_loop cfg scale (take k envs) s))
              = accumulate ?n 0 (map step_loss (take k envs))
          \<and> step_time (fst (train_loop cfg scale (take k envs) s))
              = accumulate ?n 0 (map elapsed (take k envs))
          \<and> snd (train_loop cfg scale (take k envs) s) = None" if k: "k < length envs" for k
  proof -
    have short: "int (length (take k envs)) < ?n" using k len by simp
    have sel': "\<forall>env \<in> set (take k envs). \<exists>b. select_bucket scale (random_number_01 env) = Inr b"
      using sel by (meson in_set_takeD)
    from train_loop_before_checkpoint [OF n start short sel'] obtain s' where
      "train_loop cfg scale (take k envs) s = (s', None)"
      "loss s' = accumulate ?n (loss s) (map step_loss (take k envs))"
      "step_time s' = accumulate ?n (step_time s) (map elapsed (take k envs))" by blast
    then show ?thesis by (simp add: zero)
  qed
  then have p: "\<forall>k < length envs.
            loss (fst (train_loop cfg scale (take k envs) s))
              = accumulate ?n 0 (map step_loss (take k envs))
          \<and> step_time (fst (train_loop cfg scale (take k envs) s))
              = accumulate ?n 0 (map elapsed (take k envs))
          \<and> snd (train_loop cfg scale (take k envs) s) = None"
    by (intro allI impI)
  note run = train_loop_interval [OF n len start zero sel]
  have b: "\<exists>ppx. PrintGlobalStep (accumulate ?n 0 (map elapsed envs)) ppx
               \<in> set (trace (fst (train_loop cfg scale envs s)))"
    using run(2) by (rule exI)
  have c: "?n < 2 ^ 53
          \<and> (\<forall>v \<in> set (map step_loss envs). round_double (v / real_of_int ?n) = v / real_of_int ?n)
          \<and> (\<forall>k \<le> length (map step_loss envs).
                round_double (sum_list (take k (map step_loss envs)) / real_of_int ?n)
                  = sum_list (take k (map step_loss envs)) / real_of_int ?n)
          \<longrightarrow> previous_losses (fst (train_loop cfg scale envs s))
                = previous_losses s @ [sum_list (map step_loss envs) / real_of_int ?n]"
  proof (intro impI, elim conjE)
    assume small: "?n < 2 ^ 53"
      and q: "\<forall>v \<in> set (map step_loss envs). round_double (v / real_of_int ?n) = v / real_of_int ?n"
      and sm: "\<forall>k \<le> length (map step_loss envs).
                round_double (sum_list (take k (map step_loss envs)) / real_of_int ?n)
                  = sum_list (take k (map step_loss envs)) / real_of_int ?n"
    have nn: "0 \<le> ?n" using n by simp
    have "accumulate ?n 0 (map step_loss envs) = sum_list (map step_loss envs) / real_of_int ?n"
      by (rule accumulate_exact [OF nn small q sm])
    with run(1) show "previous_losses (fst (train_loop cfg scale envs s))
                = previous_losses s @ [sum_list (map step_loss envs) / real_of_int ?n]"
      by (simp only:)
  qed
  have d: "loss (fst (checkpoint cfg env0 s0)) = 0" "step_time (fst (checkpoint cfg env0 s0)) = 0"
    by (simp_all add: checkpoint_eq)
  show ?thesis by (intro conjI p run(1) b c run(3) run(4) d)
qed

lemma rd_0: "round_double 0 = 0"
  by (simp add: round_double_def)

lemma rd_2: "round_double 2 = 2"
  using round_double_of_int [of 2] by simp

lemma rd_4: "round_double 4 = 4"
  using round_double_of_int [of 4] by simp

lemma rd_3_2: "round_double (3 / 2) = 3 / 2"
  using round_double_eval [of 0 "3 / 2"]
  by (simp add: round_half_even_def power_int_minus)

lemma rd_5_2: "round_double (5 / 2) = 5 / 2"
  using round_double_eval [of 1 "5 / 2"]
  by (simp add: round_half_even_def power_int_minus)

lemma pick_example: "select_bucket [1] (random_number_01 (example_env logits l)) = Inr 0"
  by (simp add: select_bucket_def py_min_def example_env_def)

theorem accumulators_rounded_and_reset_witness:
  "0 < FLAGS_steps_per_checkpoint example_config
   \<and> FLAGS_steps_per_checkpoint example_config < 2 ^ 53
   \<and> list_all (\<lambda>env. select_bucket [1] (random_number_01 env) = Inr 0)
         [example_env quiet_logits 3, example_env quiet_logits 5]
   \<and> list_all (\<lambda>v. round_double (v / 2) = v / 2) [3, 5]
   \<and> list_all (\<lambda>k. round_double (sum_list (take k [3, 5]) / 2) = sum_list (take k [3, 5]) / 2)
         [0, 1, 2]
   \<and> loss (fst (train_loop example_config [1] [example_env quiet_logits 3] initial_state)) = 3 / 2
   \<and> step_time (fst (train_loop example_config [1] [example_env quiet_logits 3] initial_state)) = 2
   \<and> previous_losses (fst (train_loop example_config [1]
         [example_env quiet_logits 3, example_env quiet_logits 5] initial_state)) = [4]
   \<and> loss (fst (train_loop example_config [1]
         [example_env quiet_logits 3, example_env quiet_logits 5] initial_state)) = 0
   \<and> step_time (fst (train_loop example_config [1]
         [example_env quiet_logits 3, example_env quiet_logits 5] initial_state)) = 0"
proof -
  let ?envs = "[example_env quiet_logits 3, example_env quiet_logits 5]"
  have n: "0 < FLAGS_steps_per_checkpoint example_config" by (simp add: example_config_def)
  have n2: "FLAGS_steps_per_checkpoint example_config = 2" by (simp add: example_config_def)
  have small: "FLAGS_steps_per_checkpoint example_config < 2 ^ 53" by (simp add: example_config_def)
  have len: "int (length ?envs) = FLAGS_steps_per_checkpoint example_config"
    by (simp add: example_config_def)
  have start: "current_step initial_state mod FLAGS_steps_per_checkpoint example_config = 0"
    by (simp add: initial_state_def)
  have zero: "loss initial_state = 0" "step_time initial_state = 0"
    by (simp_all add: initial_state_def)
  have sel: "\<forall>env \<in> set ?envs. \<exists>b. select_bucket [1] (random_number_01 env) = Inr b"
    by (simp add: pick_example)
  have losses: "map step_loss ?envs = [3, 5]" by (simp add: example_env_def)
  have times: "map elapsed ?envs = [4, 4]" by (simp add: example_env_def)
  have q: "\<forall>v \<in> set [3, 5 :: real]. round_double (v / 2) = v / 2"
    by (simp add: rd_3_2 rd_5_2)
  have sm: "\<forall>k \<le> length [3, 5 :: real].
      round_double (sum_list (take k [3, 5]) / 2) = sum_list (take k [3, 5]) / 2"
  proof (intro allI impI)
    fix k :: nat assume "k \<le> length [3, 5 :: real]"
    then have "k = 0 \<or> k = 1 \<or> k = 2" by auto
    then show "round_double (sum_list (take k [3, 5]) / 2) = sum_list (take k [3, 5]) / 2"
      by (elim disjE) (simp_all add: rd_0 rd_3_2 rd_4)
  qed
  note th = accumulators_rounded_and_reset [OF n len start zero sel, unfolded n2 losses times]
  have py2: "py_float 2 = 2" using py_float_exact [of 2] by simp
  have a1: "accumulate 2 0 [3] = 3 / 2"
    by (simp add: accumulate_def float_add_def float_div_def py2 rd_3_2)
  have a2: "accumulate 2 0 [3, 5] = 4"
    by (simp add: accumulate_def float_add_def float_div_def py2 rd_3_2 rd_5_2 rd_4)
  have t1: "accumulate 2 0 [4] = 2"
    by (simp add: accumulate_def float_add_def float_div_def py2 rd_2)
  from th have steps: "\<forall>k < length ?envs.
            loss (fst (train_loop example_config [1] (take k ?envs) initial_state))
              = accumulate 2 0 (map step_loss (take k ?envs))
          \<and> step_time (fst (train_loop example_config [1] (take k ?envs) initial_state))
              = accumulate 2 0 (map elapsed (take k ?envs))
          \<and> snd (train_loop example_config [1] (take k ?envs) initial_state) = None"
    by (rule conjunct1)
  from steps [rule_format, of 1]
  have a: "loss (fst (train_loop example_config [1] [example_env quiet_logits 3] initial_state)) = 3 / 2"
    and b: "step_time (fst (train_loop example_config [1] [example_env quiet_logits 3] initial_state)) = 2"
    by (simp_all add: example_env_def a1 t1)
  from th have c: "previous_losses (fst (train_loop example_config [1] ?envs initial_state)) = [4]"
    and d: "loss (fst (train_loop example_config [1] ?envs initial_state)) = 0"
    and e: "step_time (fst (train_loop example_config [1] ?envs initial_state)) = 0"
    by (simp_all add: a2 initial_state_def)
  have f: "list_all (\<lambda>env. select_bucket [1] (random_number_01 env) = Inr 0) ?envs"
    by (simp add: pick_example)
  have g: "list_all (\<lambda>v. round_double (v / 2) = v / 2) [3, 5]"
    by (simp add: rd_3_2 rd_5_2)
  have h: "list_all (\<lambda>k. round_double (sum_list (take k [3, 5]) / 2) = sum_list (take k [3, 5]) / 2)
         [0, 1, 2]"
    by (simp add: rd_0 rd_3_2 rd_4)
  show ?thesis by (intro conjI n small f g h a b c d e)
qed

lemma drift_quotients:
  "float_div 0 (py_float 5) = 0"
  "float_div (1 / 8) (py_float 5) = 7205759403792794 / 2 ^ 58"
  "float_div (13 / 8) (py_float 5) = 5854679515581645 / 2 ^ 54"
  "float_div (11 / 4) (py_float 5) = 4953959590107546 / 2 ^ 53"
  "float_div (1 / 2) (py_float 5) = 7205759403792794 / 2 ^ 56"
proof -
  have py5: "py_float 5 = 5" using py_float_exact [of 5] by simp
  show "float_div 0 (py_float 5) = 0" by (simp add: float_div_def round_double_def)
  show "float_div (1 / 8) (py_float 5) = 7205759403792794 / 2 ^ 58"
    using round_double_eval [of "- 6" "1 / 8 / 5"]
    by (simp add: float_div_def py5 round_half_even_def power_int_minus)
  show "float_div (13 / 8) (py_float 5) = 5854679515581645 / 2 ^ 54"
    using round_double_eval [of "- 2" "13 / 8 / 5"]
    by (simp add: float_div_def py5 round_half_even_def power_int_minus)
  show "float_div (11 / 4) (py_float 5) = 4953959590107546 / 2 ^ 53"
    using round_double_eval [of "- 1" "11 / 4 / 5"]
    by (simp add: float_div_def py5 round_half_even_def power_int_minus)
  show "float_div (1 / 2) (py_float 5) = 7205759403792794 / 2 ^ 56"
    using round_double_eval [of "- 4" "1 / 2 / 5"]
    by (simp add: float_div_def py5 round_half_even_def power_int_minus)
qed

lemma drift_sums:
  "float_add 0 0 = 0"
  "float_add 0 (7205759403792794 / 2 ^ 58) = 7205759403792794 / 2 ^ 58"
  "float_add (7205759403792794 / 2 ^ 58) (5854679515581645 / 2 ^ 54) = 6305039478318695 / 2 ^ 54"
  "float_add (6305039478318695 / 2 ^ 54) (4953959590107546 / 2 ^ 53) = 8106479329266894 / 2 ^ 53"
  "float_add (8106479329266894 / 2 ^ 53) (7205759403792794 / 2 ^ 56) = 4503599627370497 / 2 ^ 52"
proof -
  show "float_add 0 0 = 0" by (simp add: float_add_def round_double_def)
  show "float_add 0 (7205759403792794 / 2 ^ 58) = 7205759403792794 / 2 ^ 58"
    using round_double_eval [of "- 6" "0 + 7205759403792794 / 2 ^ 58"]
    by (simp add: float_add_def round_half_even_def power_int_minus)
  show "float_add (7205759403792794 / 2 ^ 58) (5854679515581645 / 2 ^ 54) = 6305039478318695 / 2 ^ 54"
    using round_double_eval [of "- 2" "7205759403792794 / 2 ^ 58 + 5854679515581645 / 2 ^ 54"]
    by (simp add: float_add_def round_half_even_def power_int_minus)
  show "float_add (6305039478318695 / 2 ^ 54) (4953959590107546 / 2 ^ 53) = 8106479329266894 / 2 ^ 53"
    using round_double_eval [of "- 1" "6305039478318695 / 2 ^ 54 + 4953959590107546 / 2 ^ 53"]
    by (simp add: float_add_def round_half_even_def power_int_minus)
  show "float_add (8106479329266894 / 2 ^ 53) (7205759403792794 / 2 ^ 56) = 4503599627370497 / 2 ^ 52"
    using round_double_eval [of 0 "8106479329266894 / 2 ^ 53 + 7205759403792794 / 2 ^ 56"]
    by (simp add: float_add_def round_half_even_def power_int_minus)
qed

lemma drift_accumulate: "accumulate 5 0 drift_losses = 4503599627370497 / 2 ^ 52"
  by (simp only: accumulate_def drift_losses_def foldl.simps drift_quotients drift_sums)

theorem mean_loss_counterexample:
  "0 < FLAGS_steps_per_checkpoint drift_config
   \<and> int (length drift_envs) = FLAGS_steps_per_checkpoint drift_config
   \<and> current_step initial_state mod FLAGS_steps_per_checkpoint drift_config = 0
   \<and> loss initial_state = 0
   \<and> list_all (\<lambda>env. select_bucket [1] (random_number_01 env) = Inr 0) drift_envs
   \<and> sum_list (map step_loss drift_envs) / real_of_int (FLAGS_steps_per_checkpoint drift_config) = 1
   \<and> previous_losses (fst (train_loop drift_config [1] drift_envs initial_state))
       = [4503599627370497 / 2 ^ 52]
   \<and> (4503599627370497 / 2 ^ 52 :: real) \<noteq> 1"
proof -
  have n5: "FLAGS_steps_per_checkpoint drift_config = 5"
    by (simp add: drift_config_def example_config_def)
  have n: "0 < FLAGS_steps_per_checkpoint drift_config" by (simp add: n5)
  have len: "int (length drift_envs) = FLAGS_steps_per_checkpoint drift_config"
    by (simp add: n5 drift_envs_def drift_losses_def)
  have start: "current_step initial_state mod FLAGS_steps_per_checkpoint drift_config = 0"
    by (simp add: initial_state_def)
  have zero: "loss initial_state = 0" "step_time initial_state = 0"
    by (simp_all add: initial_state_def)
  have sel: "\<forall>env \<in> set drift_envs. \<exists>b. select_bucket [1] (random_number_01 env) = Inr b"
    by (auto simp: drift_envs_def pick_example)
  have sel': "list_all (\<lambda>env. select_bucket [1] (random_number_01 env) = Inr 0) drift_envs"
    by (simp add: drift_envs_def list_all_iff pick_example)
  have losses: "map step_loss drift_envs = drift_losses"
    by (simp add: drift_envs_def example_env_def comp_def)
  have mean: "sum_list (map step_loss drift_envs)
      / real_of_int (FLAGS_steps_per_checkpoint drift_config) = 1"
    by (simp add: losses n5 drift_losses_def)
  have "previous_losses (fst (train_loop drift_config [1] drift_envs initial_state))
       = previous_losses initial_state @ [accumulate 5 0 drift_losses]"
    using train_loop_interval(1) [OF n len start zero sel] by (simp only: n5 losses)
  then have rec: "previous_losses (fst (train_loop drift_config [1] drift_envs initial_state))
       = [4503599627370497 / 2 ^ 52]"
    by (simp add: drift_accumulate initial_state_def)
  have ne: "(4503599627370497 / 2 ^ 52 :: real) \<noteq> 1" by simp
  show ?thesis by (intro conjI n len start zero(1) sel' mean rec ne)
qed

section \<open>Batch Sampler weights: proofs\<close>

lemma weight_row_scenario:
  "weight_row 3 [3, 4] = [1, 1, 0] \<and> decoder_row GO_ID PAD_ID 3 [3, 4] = [GO_ID, 3, 4, PAD_ID]"
  by (simp add: weight_row_def decoder_row_def upt_rec)

lemma weight_row_nth:
  "j < capacity \<Longrightarrow>
   weight_row capacity tgt ! j = (if j < length tgt \<and> j \<noteq> capacity - 1 then 1 else 0)"
  by (simp add: weight_row_def)

text \<open>
  C9. For every example whose target ends with the end-of-sequence marker and fits
  the bucket (it is shorter than the output capacity), in every bucket: the position
  that follows the marker in the padded target (the decoder row without its leading
  GO) has weight 0, although the decoder row itself, shifted by the GO in front, holds
  the marker at that position.
\<close>

theorem weight_after_eos_is_zero:
  assumes "tgt = body @ [EOS_ID]" and "length tgt < capacity"
  shows "length (weight_row capacity tgt) = capacity
    \<and> length (decoder_row GO_ID PAD_ID capacity tgt) = capacity + 1
    \<and> tl (decoder_row GO_ID PAD_ID capacity tgt) ! (length tgt - 1) = EOS_ID
    \<and> decoder_row GO_ID PAD_ID capacity tgt ! length tgt = EOS_ID
    \<and> weight_row capacity tgt ! length tgt = 0"
proof (intro conjI)
  show "length (weight_row capacity tgt) = capacity" by (simp add: weight_row_def)
  show "length (decoder_row GO_ID PAD_ID capacity tgt) = capacity + 1"
    using assms(2) by (simp add: decoder_row_def)
  show "tl (decoder_row GO_ID PAD_ID capacity tgt) ! (length tgt - 1) = EOS_ID"
    using assms(1) by (simp add: decoder_row_def nth_append)
  show "decoder_row GO_ID PAD_ID capacity tgt ! length tgt = EOS_ID"
    using assms(1) by (simp add: decoder_row_def nth_append)
  show "weight_row capacity tgt ! length tgt = 0"
    using assms(2) by (simp add: weight_row_nth)
qed

theorem weight_after_eos_is_zero_witness:
  "[3, 2] = [3] @ [2 :: int] \<and> length [3, 2 :: int] < 4
   \<and> decoder_row 1 0 4 [3, 2] = [1, 3, 2, 0, 0]
   \<and> decoder_row 1 0 4 [3, 2] ! 2 = 2
   \<and> weight_row 4 [3, 2] = [1, 1, 0, 0]
   \<and> weight_row 4 [3, 2] ! 2 = 0"
proof -
  have a: "[3, 2] = [3] @ [2 :: int]" and b: "length [3, 2 :: int] < 4" by simp_all
  have d: "decoder_row 1 0 4 [3, 2] = [1, 3, 2, 0, 0]"
    by (simp add: decoder_row_def numeral_2_eq_2)
  have w: "weight_row 4 [3, 2] = [1, 1, 0, 0]"
    by (simp add: weight_row_def upt_rec)
  have l: "length [3, 2 :: int] = 2" by simp
  note th = weight_after_eos_is_zero [OF a b, of 1 0, THEN conjunct2, THEN conjunct2,
      THEN conjunct2, unfolded l]
  from th have e1: "decoder_row 1 0 4 [3, 2] ! 2 = 2" by (rule conjunct1)
  from th have e2: "weight_row 4 [3, 2] ! 2 = 0" by (rule conjunct2)
  show ?thesis by (intro conjI a b d e1 w e2)
qed

end
